theory Spec2Isabelle
  imports Complex_Main
begin

section \<open>Digraph.hpp: a generic directed graph on adjacency lists\<close>

text \<open>
  The class template \<open>Digraph<VertexInfo, EdgeInfo>\<close> keeps one member,
  \<open>std::map<int, DigraphVertex<VertexInfo, EdgeInfo>> container\<close>. Each vertex record holds
  its payload and a \<open>std::list\<close> of its outgoing edges, in the order \<open>push_back\<close> stored them.
  Vertex numbers are only compared and copied, never computed with, so they are \<open>int\<close>.
\<close>

subsection \<open>Outcomes of a member function\<close>

text \<open>
  A member function returns, throws, or runs into behaviour the language leaves undefined.
  \<open>DigraphException\<close> carries the reason text of the source; \<open>out_of_range\<close> is what
  \<open>std::map::at\<close> throws.
\<close>

datatype error = DigraphException string | out_of_range

text \<open>For \<open>const\<close> member functions: the graph cannot change.\<close>

datatype 'a result = Returns 'a | Throws error | Undefined

text \<open>
  For mutating member functions: \<open>Done g\<close> is a normal return with the graph as the call left
  it, \<open>Raised e g\<close> an exception together with the graph at the moment of the throw.
\<close>

datatype 'g effect = Done 'g | Raised error 'g | UndefinedBehaviour

subsection \<open>\<open>std::map<int, T>\<close> as a list of entries in key order\<close>

type_synonym 'a std_map = "(int \<times> 'a) list"

text \<open>\<open>find\<close> is \<open>map_of\<close>. \<open>m[k] = v\<close> stores at the key's place in the order.\<close>

fun map_assign :: "int \<Rightarrow> 'a \<Rightarrow> 'a std_map \<Rightarrow> 'a std_map" where
  "map_assign k v [] = [(k, v)]"
| "map_assign k v ((k', v') # m) =
     (if k < k' then (k, v) # (k', v') # m
      else if k = k' then (k, v) # m
      else (k', v') # map_assign k v m)"

text \<open>
  \<open>insert\<close> leaves an entry that is already there as it is; \<open>operator[]\<close> on its own is an
  \<open>insert\<close> of the value-initialised element.
\<close>

definition map_insert :: "int \<Rightarrow> 'a \<Rightarrow> 'a std_map \<Rightarrow> 'a std_map" where
  "map_insert k v m = (case map_of m k of None \<Rightarrow> map_assign k v m | Some _ \<Rightarrow> m)"

text \<open>\<open>erase(it)\<close> for the iterator that \<open>find(k)\<close> returned.\<close>

fun map_erase :: "int \<Rightarrow> 'a std_map \<Rightarrow> 'a std_map" where
  "map_erase k [] = []"
| "map_erase k ((k', v') # m) = (if k' = k then m else (k', v') # map_erase k m)"

text \<open>A write through the iterator that \<open>find(k)\<close> returned: \<open>it->second = f (it->second)\<close>.\<close>

fun map_modify :: "int \<Rightarrow> ('a \<Rightarrow> 'a) \<Rightarrow> 'a std_map \<Rightarrow> 'a std_map" where
  "map_modify k f [] = []"
| "map_modify k f ((k', v') # m) =
     (if k' = k then (k', f v') # m else (k', v') # map_modify k f m)"

text \<open>
  Reading \<open>m[k]\<close> after the \<open>insert\<close> that \<open>operator[]\<close> performs; \<open>dflt\<close> is the
  value-initialised element, which is what a missing key would hold.
\<close>

definition subscript :: "'a std_map \<Rightarrow> int \<Rightarrow> 'a \<Rightarrow> 'a" where
  "subscript m k dflt = (case map_of m k of None \<Rightarrow> dflt | Some v \<Rightarrow> v)"

lemma map_of_map_assign: "map_of (map_assign k v m) = (map_of m)(k \<mapsto> v)"
  by (induction m) (auto simp: fun_eq_iff)

lemma map_of_map_insert:
  "map_of (map_insert k v m) =
     (case map_of m k of None \<Rightarrow> (map_of m)(k \<mapsto> v) | Some _ \<Rightarrow> map_of m)"
  by (simp add: map_insert_def map_of_map_assign split: option.splits)

lemma map_of_map_modify:
  "map_of (map_modify k f m) =
     (case map_of m k of None \<Rightarrow> map_of m | Some v \<Rightarrow> (map_of m)(k \<mapsto> f v))"
  by (induction m) (auto split: option.splits)

lemma keys_map_modify: "map fst (map_modify k f m) = map fst m"
  by (induction m) auto

lemma map_of_in_keys: "map_of m k = Some v \<Longrightarrow> k \<in> set (map fst m)"
  by (induction m) (auto split: if_splits)

subsection \<open>Edges, vertices, the graph\<close>

record 'e DigraphEdge =
  fromVertex :: int
  toVertex :: int
  einfo :: 'e

record ('v, 'e) DigraphVertex =
  vinfo :: 'v
  edges :: "'e DigraphEdge list"

type_synonym ('v, 'e) Digraph = "('v, 'e) DigraphVertex std_map"

text \<open>The default constructor.\<close>

definition Digraph :: "('v, 'e) Digraph" where
  "Digraph = []"

text \<open>
  The move constructor and the move assignment operator both run \<open>container = d.container\<close>.
  The parameter \<open>d\<close> has a name, so \<open>d.container\<close> is an lvalue and the assignment is the
  copy assignment of \<open>std::map\<close>. The pair is (the destination, \<open>d\<close> after the call).
\<close>

definition Digraph_move :: "('v, 'e) Digraph \<Rightarrow> ('v, 'e) Digraph \<times> ('v, 'e) Digraph" where
  "Digraph_move d = (d, d)"

definition move_assign ::
  "('v, 'e) Digraph \<Rightarrow> ('v, 'e) Digraph \<Rightarrow> ('v, 'e) Digraph \<times> ('v, 'e) Digraph" where
  "move_assign this d = (d, d)"

definition vertices :: "('v, 'e) Digraph \<Rightarrow> int list" where
  "vertices g = map fst g"

definition edges_all :: "('v, 'e) Digraph \<Rightarrow> (int \<times> int) list" where
  "edges_all g = concat (map (\<lambda>(k, v). map (\<lambda>e. (fromVertex e, toVertex e)) (edges v)) g)"

definition edges_from :: "('v, 'e) Digraph \<Rightarrow> int \<Rightarrow> (int \<times> int) list result" where
  "edges_from g vertex =
     (case map_of g vertex of
        None \<Rightarrow> Throws (DigraphException ''When get edges fro ma vertex, can't find vertex!'')
      | Some v \<Rightarrow> Returns (map (\<lambda>e. (fromVertex e, toVertex e)) (edges v)))"

definition vertexInfo :: "('v, 'e) Digraph \<Rightarrow> int \<Rightarrow> 'v result" where
  "vertexInfo g vertex =
     (case map_of g vertex of
        None \<Rightarrow> Throws (DigraphException ''When vertexInfo, can't find vertex'')
      | Some v \<Rightarrow> Returns (vinfo v))"

text \<open>The loop of \<open>edgeInfo\<close>: the first edge of the list with the wanted target.\<close>

fun edgeInfo_scan :: "'e DigraphEdge list \<Rightarrow> int \<Rightarrow> 'e result" where
  "edgeInfo_scan [] to = Throws (DigraphException ''WHen edgeInfo, can't find toVertex'')"
| "edgeInfo_scan (e # es) to = (if toVertex e = to then Returns (einfo e) else edgeInfo_scan es to)"

definition edgeInfo :: "('v, 'e) Digraph \<Rightarrow> int \<Rightarrow> int \<Rightarrow> 'e result" where
  "edgeInfo g from to =
     (case map_of g from of
        None \<Rightarrow> Throws (DigraphException ''When edgeInfo, can't find fromVertex'')
      | Some v \<Rightarrow> edgeInfo_scan (edges v) to)"

text \<open>\<open>addVertex\<close> is one \<open>container.insert\<close>; its result is not looked at and nothing is thrown.\<close>

definition addVertex :: "('v, 'e) Digraph \<Rightarrow> int \<Rightarrow> 'v \<Rightarrow> ('v, 'e) Digraph effect" where
  "addVertex g vertex vi = Done (map_insert vertex \<lparr>vinfo = vi, edges = []\<rparr> g)"

definition addEdge :: "('v, 'e) Digraph \<Rightarrow> int \<Rightarrow> int \<Rightarrow> 'e \<Rightarrow> ('v, 'e) Digraph effect" where
  "addEdge g from to ei =
     (case map_of g from of
        None \<Rightarrow> Raised (DigraphException ''When add, can't find startVertex!'') g
      | Some _ \<Rightarrow>
          (case map_of g to of
             None \<Rightarrow> Raised (DigraphException ''When add, can't find endVertex!'') g
           | Some _ \<Rightarrow>
               Done (map_modify from
                 (\<lambda>v. v\<lparr>edges := edges v @ [\<lparr>fromVertex = from, toVertex = to, einfo = ei\<rparr>]\<rparr>) g)))"

text \<open>
  The inner loop of \<open>removeVertex\<close> over one outgoing list. On a match it calls
  \<open>temp.erase(it_list)\<close> and then the loop header increments \<open>it_list\<close>, an iterator that the
  erase has just invalidated: the behaviour is undefined from there. \<open>None\<close> is that outcome;
  a list with no match is left as it is.
\<close>

fun erase_incoming :: "'e DigraphEdge list \<Rightarrow> int \<Rightarrow> 'e DigraphEdge list option" where
  "erase_incoming [] vertex = Some []"
| "erase_incoming (e # es) vertex =
     (if toVertex e = vertex then None
      else map_option (\<lambda>es'. e # es') (erase_incoming es vertex))"

text \<open>The outer loop of \<open>removeVertex\<close> over the vertices that remain.\<close>

fun removeVertex_sweep :: "('v, 'e) Digraph \<Rightarrow> int \<Rightarrow> ('v, 'e) Digraph option" where
  "removeVertex_sweep [] vertex = Some []"
| "removeVertex_sweep ((k, v) # m) vertex =
     (case erase_incoming (edges v) vertex of
        None \<Rightarrow> None
      | Some es' \<Rightarrow> map_option (\<lambda>m'. (k, v\<lparr>edges := es'\<rparr>) # m') (removeVertex_sweep m vertex))"

definition removeVertex :: "('v, 'e) Digraph \<Rightarrow> int \<Rightarrow> ('v, 'e) Digraph effect" where
  "removeVertex g vertex =
     (case map_of g vertex of
        None \<Rightarrow> Raised (DigraphException ''When removeVertex, vertex not found!'') g
      | Some _ \<Rightarrow>
          (case removeVertex_sweep (map_erase vertex g) vertex of
             None \<Rightarrow> UndefinedBehaviour
           | Some g' \<Rightarrow> Done g'))"

text \<open>
  The loop of \<open>removeEdge\<close>: it erases the first edge with the wanted target and returns at
  once, so the erased iterator is not used again. \<open>None\<close>: the loop ran to the end.
\<close>

fun removeEdge_scan :: "'e DigraphEdge list \<Rightarrow> int \<Rightarrow> 'e DigraphEdge list option" where
  "removeEdge_scan [] to = None"
| "removeEdge_scan (e # es) to =
     (if toVertex e = to then Some es
      else map_option (\<lambda>es'. e # es') (removeEdge_scan es to))"

definition removeEdge :: "('v, 'e) Digraph \<Rightarrow> int \<Rightarrow> int \<Rightarrow> ('v, 'e) Digraph effect" where
  "removeEdge g from to =
     (case map_of g from of
        None \<Rightarrow> Raised (DigraphException ''When removeEdge, fromVertex not found!'') g
      | Some v \<Rightarrow>
          (case removeEdge_scan (edges v) to of
             None \<Rightarrow> Raised (DigraphException ''When removeEdge, toVertex not found!'') g
           | Some es' \<Rightarrow> Done (map_modify from (\<lambda>v. v\<lparr>edges := es'\<rparr>) g)))"

text \<open>
  \<open>vertexCount\<close> returns \<open>container.size()\<close> as an \<open>int\<close>: the conversion from \<open>size_t\<close>
  keeps the value modulo \<open>2^32\<close>, in the range of a 32-bit \<open>int\<close>.
\<close>

definition size_to_int :: "nat \<Rightarrow> int" where
  "size_to_int n = (int n + 2 ^ 31) mod 2 ^ 32 - 2 ^ 31"

definition vertexCount :: "('v, 'e) Digraph \<Rightarrow> int" where
  "vertexCount g = size_to_int (length g)"

subsection \<open>Strong connectivity\<close>

text \<open>
  \<open>DFTr\<close> marks \<open>vertexIndex\<close> and walks the outgoing list of \<open>v\<close>; \<open>DFTr_edges\<close> is that
  \<open>for\<close> loop. The test \<open>visitRecords[it_list->toVertex] == false\<close> goes through
  \<open>operator[]\<close>, and \<open>container.at\<close> is evaluated at the call, where it throws for a target
  that is no vertex.
\<close>

function DFTr :: "('v, 'e) Digraph \<Rightarrow> int \<Rightarrow> ('v, 'e) DigraphVertex \<Rightarrow> bool std_map \<Rightarrow> bool std_map result"
  and DFTr_edges :: "('v, 'e) Digraph \<Rightarrow> 'e DigraphEdge list \<Rightarrow> bool std_map \<Rightarrow> bool std_map result"
where
  "DFTr g vertexIndex v visitRecords =
     DFTr_edges g (edges v) (map_assign vertexIndex True visitRecords)"
| "DFTr_edges g [] visitRecords = Returns visitRecords"
| "DFTr_edges g (e # es) visitRecords =
     (let visitRecords1 = map_insert (toVertex e) False visitRecords in
      if subscript visitRecords1 (toVertex e) False = False then
        (case map_of g (toVertex e) of
           None \<Rightarrow> Throws out_of_range
         | Some v \<Rightarrow>
             (case DFTr g (toVertex e) v visitRecords1 of
                Returns visitRecords2 \<Rightarrow> DFTr_edges g es visitRecords2
              | Throws x \<Rightarrow> Throws x
              | Undefined \<Rightarrow> Undefined))
      else DFTr_edges g es visitRecords1)"
  by pat_completeness auto

text \<open>
  The calls nest: the loop goes on with the records that the inner call returns. Each inner
  call marks a vertex of the graph that was not marked, and marks are never taken back.
\<close>

definition marked :: "bool std_map \<Rightarrow> int set" where
  "marked vis = {k. map_of vis k = Some True}"

lemma marked_map_assign_True: "marked (map_assign k True vis) = insert k (marked vis)"
  by (auto simp: marked_def map_of_map_assign)

lemma marked_map_insert_False: "marked (map_insert k False vis) = marked vis"
  by (auto simp: marked_def map_of_map_insert split: option.splits)

lemma DFTr_dom_marked_mono:
  "DFTr_DFTr_edges_dom (Inl (g, k, v, vis)) \<Longrightarrow> DFTr g k v vis = Returns vis' \<Longrightarrow> insert k (marked vis) \<subseteq> marked vis'"
  "DFTr_DFTr_edges_dom (Inr (g, es, vis)) \<Longrightarrow> DFTr_edges g es vis = Returns vis' \<Longrightarrow> marked vis \<subseteq> marked vis'"
proof (induction g k v vis and g es vis arbitrary: vis' and vis' rule: DFTr_DFTr_edges.pinduct)
  case (1 g vertexIndex v visitRecords)
  then show ?case by (simp add: DFTr.psimps marked_map_assign_True)
next
  case (2 g visitRecords)
  then show ?case by (simp add: DFTr_edges.psimps)
next
  case (3 g e es vis)
  let ?v1 = "map_insert (toVertex e) False vis"
  show ?case
  proof (cases "subscript ?v1 (toVertex e) False = False")
    case True
    with 3(1,5) obtain x2 x1 where a: "map_of g (toVertex e) = Some x2"
         "DFTr g (toVertex e) x2 ?v1 = Returns x1" "DFTr_edges g es x1 = Returns vis'"
      by (auto simp: DFTr_edges.psimps Let_def split: option.splits result.splits)
    from 3(2)[OF refl True a(1) a(2)] 3(3)[OF refl True a(1) a(2) a(3)]
    show ?thesis by (auto simp: marked_map_insert_False)
  next
    case False
    with 3(1,5) have "DFTr_edges g es ?v1 = Returns vis'"
      by (auto simp: DFTr_edges.psimps Let_def)
    from 3(4)[OF refl False this] show ?thesis by (simp add: marked_map_insert_False)
  qed
qed

definition unvisited :: "('v, 'e) Digraph \<Rightarrow> bool std_map \<Rightarrow> nat" where
  "unvisited g vis = card (set (map fst g) - marked vis)"

lemma unvisited_mono: "marked vis \<subseteq> marked vis' \<Longrightarrow> unvisited g vis' \<le> unvisited g vis"
  unfolding unvisited_def by (intro card_mono) auto

lemma unvisited_less:
  "k \<in> set (map fst g) \<Longrightarrow> k \<notin> marked vis \<Longrightarrow> insert k (marked vis) \<subseteq> marked vis'  \<Longrightarrow> unvisited g vis' < unvisited g vis"
  unfolding unvisited_def by (intro psubset_card_mono) auto

termination DFTr
proof (relation "inv_image (less_than <*lex*> less_than <*lex*> less_than)
     (\<lambda>x. case x of Inl (g, k, v, vis) \<Rightarrow> (unvisited g (map_assign k True vis), 1::nat, 0::nat)
       | Inr (g, es, vis) \<Rightarrow> (unvisited g vis, 0, length es))", goal_cases)
  case 1
  then show ?case by (intro wf_inv_image wf_lex_prod wf_less_than)
next
  case (2 g vertexIndex v visitRecords)
  then show ?case by simp
next
  case (3 g e es vis x x2)
  have "toVertex e \<in> set (map fst g)" using 3(3) by (rule map_of_in_keys)
  moreover have "toVertex e \<notin> marked vis" using 3(1,2)
    by (auto simp: marked_def subscript_def map_of_map_insert split: option.splits)
  ultimately have "unvisited g (map_assign (toVertex e) True x) < unvisited g vis"
    using 3(1) by (intro unvisited_less) (auto simp: marked_map_assign_True marked_map_insert_False)
  then show ?case by simp
next
  case (4 g e es vis x x2 x1)
  from DFTr_dom_marked_mono(1)[OF 4(5) 4(4)] 4(1)
  have "marked vis \<subseteq> marked x1" by (auto simp: marked_map_insert_False)
  from unvisited_mono[OF this, of g] show ?case by auto
next
  case (5 g e es vis x)
  then show ?case by (simp add: unvisited_def marked_map_insert_False)
qed

text \<open>The body of \<open>countConnectVertices\<close>: one \<open>count++\<close> for each entry that is \<open>true\<close>.\<close>

definition countConnectVertices :: "bool std_map \<Rightarrow> int" where
  "countConnectVertices visitRecords =
     fold (\<lambda>(k, b) count. if b = True then count + 1 else count) visitRecords 0"

text \<open>The inner \<open>for\<close> loop of \<open>isStronglyConnected\<close>: every vertex is set to \<open>false\<close>.\<close>

definition clear_records :: "('v, 'e) Digraph \<Rightarrow> bool std_map \<Rightarrow> bool std_map" where
  "clear_records g visitRecords = fold (\<lambda>(k, v) m. map_assign k False m) g visitRecords"

text \<open>
  The outer loop over the vertices still to be tried; \<open>visitRecords\<close> lives across its
  rounds. \<open>count\<close> is an \<open>int\<close> that is incremented once for each marked entry; it is
  counted here without a bound, which is the source for fewer than \<open>2^31\<close> marked entries.
\<close>

fun isStronglyConnected_loop ::
  "('v, 'e) Digraph \<Rightarrow> ('v, 'e) Digraph \<Rightarrow> bool std_map \<Rightarrow> bool result" where
  "isStronglyConnected_loop g [] visitRecords = Returns True"
| "isStronglyConnected_loop g ((k, v) # rest) visitRecords =
     (case DFTr g k v (clear_records g visitRecords) of
        Returns visitRecords' \<Rightarrow>
          if countConnectVertices visitRecords' \<noteq> vertexCount g then Returns False
          else isStronglyConnected_loop g rest visitRecords'
      | Throws x \<Rightarrow> Throws x
      | Undefined \<Rightarrow> Undefined)"

definition isStronglyConnected :: "('v, 'e) Digraph \<Rightarrow> bool result" where
  "isStronglyConnected g = isStronglyConnected_loop g g []"

subsection \<open>Shortest paths\<close>

text \<open>
  \<open>DijkstraInfo\<close> keeps the tentative distance \<open>d\<close> as an \<open>int\<close>. A missing key reached
  through \<open>operator[]\<close> is value-initialised.
\<close>

record DijkstraInfo =
  kFlag :: bool
  d :: int
  p :: int

definition DijkstraInfo_init :: DijkstraInfo where
  "DijkstraInfo_init = \<lparr>kFlag = False, d = 0, p = 0\<rparr>"

text \<open>\<open>std::numeric_limits<int>::max()\<close> and the least \<open>int\<close>, for 32 bits.\<close>

definition INT_MAX :: int where
  "INT_MAX = 2147483647"

definition INT_MIN :: int where
  "INT_MIN = - 2147483648"

text \<open>
  \<open>edgeWeightFunc\<close> returns a \<open>double\<close>, so \<open>vD.d + edgeWeightFunc(...)\<close> is computed and
  compared as a \<open>double\<close>, and the assignment to \<open>wD.d\<close> converts it to \<open>int\<close>: the
  fractional part is dropped, and a value outside the range of \<open>int\<close> is undefined
  behaviour (\<open>None\<close>). Weights are rationals here and sums are exact; that is the \<open>double\<close>
  arithmetic wherever the sum of an \<open>int\<close> and a weight is representable, as it is for
  weights that are small multiples of a power of \<open>1/2\<close>.
\<close>

definition double_to_int :: "rat \<Rightarrow> int option" where
  "double_to_int x =
     (let t = (if 0 \<le> x then \<lfloor>x\<rfloor> else \<lceil>x\<rceil>)
      in if INT_MIN \<le> t \<and> t \<le> INT_MAX then Some t else None)"

text \<open>
  The \<open>std::priority_queue\<close> of (distance, vertex) pairs, as the list of its entries in the
  order they were pushed. \<open>Compare\<close> is \<open>lhs.first < rhs.first\<close>, and \<open>top()\<close> is an entry
  that \<open>Compare\<close> puts before no other: one whose distance is the greatest. Among several
  such entries the heap's layout decides; \<open>tie\<close> stands for that choice, and the first of
  them is taken where \<open>tie\<close> names none of them.
\<close>

type_synonym pqueue = "(int \<times> int) list"

definition pq_top :: "(pqueue \<Rightarrow> int \<times> int) \<Rightarrow> pqueue \<Rightarrow> int \<times> int" where
  "pq_top tie q =
     (let greatest = filter (\<lambda>x. list_all (\<lambda>y. \<not> fst x < fst y) q) q
      in if tie greatest \<in> set greatest then tie greatest else hd greatest)"

definition pq_pop :: "(pqueue \<Rightarrow> int \<times> int) \<Rightarrow> pqueue \<Rightarrow> pqueue" where
  "pq_pop tie q = remove1 (pq_top tie q) q"

text \<open>
  The \<open>for\<close> loop over \<open>edges_list\<close>. \<open>vD\<close> and \<open>wD\<close> are references into \<open>vData\<close>, so
  they are read from the map as it stands in each round.
\<close>

fun relax :: "('e \<Rightarrow> rat) \<Rightarrow> int \<Rightarrow> 'e DigraphEdge list \<Rightarrow> DijkstraInfo std_map \<Rightarrow> pqueue
    \<Rightarrow> (DijkstraInfo std_map \<times> pqueue) option" where
  "relax edgeWeightFunc vIndex [] vData pqueue = Some (vData, pqueue)"
| "relax edgeWeightFunc vIndex (e # es) vData pqueue =
     (let vData1 = map_insert (toVertex e) DijkstraInfo_init vData;
          wD = subscript vData1 (toVertex e) DijkstraInfo_init;
          vD = subscript vData1 vIndex DijkstraInfo_init
      in if of_int (d wD) > of_int (d vD) + edgeWeightFunc (einfo e) then
           (case double_to_int (of_int (d vD) + edgeWeightFunc (einfo e)) of
              None \<Rightarrow> None
            | Some nd \<Rightarrow>
                relax edgeWeightFunc vIndex es
                  (map_assign (toVertex e) (wD\<lparr>d := nd, p := vIndex\<rparr>) vData1)
                  (pqueue @ [(nd, toVertex e)]))
         else relax edgeWeightFunc vIndex es vData1 pqueue)"

text \<open>The vertices of the graph whose \<open>kFlag\<close> is not set: the measure of the main loop.\<close>

definition unfinished :: "('v, 'e) Digraph \<Rightarrow> DijkstraInfo std_map \<Rightarrow> nat" where
  "unfinished g vData = card {k \<in> set (map fst g). \<not> kFlag (subscript vData k DijkstraInfo_init)}"

text \<open>The \<open>while (pqueue.size() != 0)\<close> loop.\<close>

function dijkstra_loop :: "(pqueue \<Rightarrow> int \<times> int) \<Rightarrow> ('v, 'e) Digraph \<Rightarrow> ('e \<Rightarrow> rat)
    \<Rightarrow> DijkstraInfo std_map \<Rightarrow> pqueue \<Rightarrow> DijkstraInfo std_map result" where
  "dijkstra_loop tie g edgeWeightFunc vData pqueue =
     (if pqueue = [] then Returns vData
      else
        let vIndex = snd (pq_top tie pqueue);
            vData1 = map_insert vIndex DijkstraInfo_init vData;
            vD = subscript vData1 vIndex DijkstraInfo_init;
            pqueue1 = pq_pop tie pqueue
        in if kFlag vD = False then
             (case map_of g vIndex of
                None \<Rightarrow> Throws out_of_range
              | Some v \<Rightarrow>
                  (case relax edgeWeightFunc vIndex (edges v)
                          (map_assign vIndex (vD\<lparr>kFlag := True\<rparr>) vData1) pqueue1 of
                     None \<Rightarrow> Undefined
                   | Some (vData2, pqueue2) \<Rightarrow> dijkstra_loop tie g edgeWeightFunc vData2 pqueue2))
           else dijkstra_loop tie g edgeWeightFunc vData1 pqueue1)"
  by pat_completeness auto

lemma pq_top_in: "q \<noteq> [] \<Longrightarrow> pq_top tie q \<in> set q"
proof -
  assume "q \<noteq> []"
  let ?g = "filter (\<lambda>x. list_all (\<lambda>y. \<not> fst x < fst y) q) q"
  have "\<exists>x\<in>set q. \<forall>y\<in>set q. \<not> fst x < fst y"
  proof -
    have "finite (fst ` set q)" "fst ` set q \<noteq> {}" using \<open>q \<noteq> []\<close> by auto
    then have "Max (fst ` set q) \<in> fst ` set q" by (rule Max_in)
    then obtain x where "x \<in> set q" "fst x = Max (fst ` set q)" by auto
    then show ?thesis by (intro bexI[of _ x]) (auto simp: not_less)
  qed
  then have ne: "?g \<noteq> []" by (auto simp: filter_empty_conv list_all_iff)
  then have "hd ?g \<in> set ?g" by (rule hd_in_set)
  then have "pq_top tie q \<in> set ?g"
    unfolding pq_top_def Let_def by (cases "tie ?g \<in> set ?g") (simp_all del: set_filter)
  then show ?thesis by simp
qed

lemma length_pq_pop: "q \<noteq> [] \<Longrightarrow> length (pq_pop tie q) < length q"
  by (simp add: pq_pop_def length_remove1 pq_top_in)

lemma relax_kFlag:
  "relax w vIndex es vData pq = Some (vData', pq') \<Longrightarrow>
   kFlag (subscript vData' k DijkstraInfo_init) = kFlag (subscript vData k DijkstraInfo_init)"
proof (induction es arbitrary: vData pq)
  case Nil
  then show ?case by simp
next
  case (Cons e es)
  let ?v1 = "map_insert (toVertex e) DijkstraInfo_init vData"
  have a: "kFlag (subscript ?v1 k DijkstraInfo_init) = kFlag (subscript vData k DijkstraInfo_init)" for k
    by (simp add: subscript_def map_of_map_insert split: option.splits)
  have b: "kFlag (subscript (map_assign (toVertex e) ((subscript ?v1 (toVertex e) DijkstraInfo_init)\<lparr>d := nd, p := q\<rparr>) ?v1) k DijkstraInfo_init)
         = kFlag (subscript vData k DijkstraInfo_init)" for nd q
    using a by (simp add: subscript_def map_of_map_assign split: option.splits)
  from Cons.prems show ?case
    by (auto simp: Let_def a b split: if_splits option.splits dest!: Cons.IH)
qed

lemma unfinished_less:
  assumes "k \<in> set (map fst g)" "\<not> kFlag (subscript vData k DijkstraInfo_init)"
    "kFlag (subscript vData' k DijkstraInfo_init)"
    "\<And>j. kFlag (subscript vData j DijkstraInfo_init) \<Longrightarrow> kFlag (subscript vData' j DijkstraInfo_init)"
  shows "unfinished g vData' < unfinished g vData"
  unfolding unfinished_def using assms by (intro psubset_card_mono) auto

termination dijkstra_loop
proof (relation "inv_image (less_than <*lex*> less_than) (\<lambda>(tie, g, w, vData, pq). (unfinished g vData, length pq))", goal_cases)
  case 1
  then show ?case by (intro wf_inv_image wf_lex_prod wf_less_than)
next
  case (2 tie g w vData pq vIndex vData1 vD pq1 v x2 vData2 pq2)
  have in_g: "vIndex \<in> set (map fst g)"
    using 2(7) by (rule map_of_in_keys)
  have k: "kFlag (subscript vData2 k DijkstraInfo_init)
      = kFlag (subscript (map_assign vIndex (vD\<lparr>kFlag := True\<rparr>) vData1) k DijkstraInfo_init)" for k
    using relax_kFlag 2 by metis
  have "unfinished g vData2 < unfinished g vData"
  proof (rule unfinished_less[OF in_g])
    show "\<not> kFlag (subscript vData vIndex DijkstraInfo_init)"
      using 2 by (auto simp: subscript_def map_of_map_insert DijkstraInfo_init_def split: option.splits)
    show "kFlag (subscript vData2 vIndex DijkstraInfo_init)"
      unfolding k by (simp add: subscript_def map_of_map_assign)
    show "kFlag (subscript vData j DijkstraInfo_init) \<Longrightarrow> kFlag (subscript vData2 j DijkstraInfo_init)" for j
      unfolding k using 2 by (auto simp: subscript_def map_of_map_assign map_of_map_insert split: option.splits)
  qed
  then show ?case by simp
next
  case (3 tie g w vData pq vIndex vData1 vD pq1)
  have "unfinished g vData1 = unfinished g vData"
    using 3 by (auto simp: unfinished_def subscript_def map_of_map_insert DijkstraInfo_init_def split: option.splits intro!: arg_cong[where f=card])
  then show ?case using 3 by (simp add: length_pq_pop)
qed

declare dijkstra_loop.simps [simp del]

text \<open>The initialisation loop, and the two assignments for \<open>startVertex\<close>.\<close>

definition init_vData :: "('v, 'e) Digraph \<Rightarrow> DijkstraInfo std_map" where
  "init_vData g = fold (\<lambda>(k, v) m. map_assign k \<lparr>kFlag = False, d = INT_MAX, p = k\<rparr> m) g []"

definition start_vData :: "('v, 'e) Digraph \<Rightarrow> int \<Rightarrow> DijkstraInfo std_map" where
  "start_vData g startVertex =
     (let vData0 = init_vData g;
          vData1 = map_modify startVertex (\<lambda>i. i\<lparr>d := 0\<rparr>)
                     (map_insert startVertex DijkstraInfo_init vData0)
      in map_modify startVertex (\<lambda>i. i\<lparr>p := startVertex\<rparr>)
           (map_insert startVertex DijkstraInfo_init vData1))"

text \<open>\<open>vData\<close> when the loop has ended.\<close>

definition dijkstra_vData :: "(pqueue \<Rightarrow> int \<times> int) \<Rightarrow> ('v, 'e) Digraph \<Rightarrow> int \<Rightarrow> ('e \<Rightarrow> rat)
    \<Rightarrow> DijkstraInfo std_map result" where
  "dijkstra_vData tie g startVertex edgeWeightFunc =
     dijkstra_loop tie g edgeWeightFunc (start_vData g startVertex) [(0, startVertex)]"

definition findShortestPaths :: "(pqueue \<Rightarrow> int \<times> int) \<Rightarrow> ('v, 'e) Digraph \<Rightarrow> int \<Rightarrow> ('e \<Rightarrow> rat)
    \<Rightarrow> int std_map result" where
  "findShortestPaths tie g startVertex edgeWeightFunc =
     (case map_of g startVertex of
        None \<Rightarrow> Throws (DigraphException ''When findShortestPaths, startVertex not found!'')
      | Some _ \<Rightarrow>
          (case dijkstra_vData tie g startVertex edgeWeightFunc of
             Returns vData \<Rightarrow> Returns (fold (\<lambda>(k, i) ans. map_assign k (p i) ans) vData [])
           | Throws x \<Rightarrow> Throws x
           | Undefined \<Rightarrow> Undefined))"

subsection \<open>Notions used to state the claims\<close>

text \<open>The keys of a \<open>std::map\<close> come in strictly increasing order.\<close>

definition ordered :: "'a std_map \<Rightarrow> bool" where
  "ordered m = sorted_wrt (<) (map fst m)"

text \<open>The edges as pairs (owning vertex, target).\<close>

definition arcs :: "('v, 'e) Digraph \<Rightarrow> (int \<times> int) set" where
  "arcs g = {(k, toVertex e) | k v e. (k, v) \<in> set g \<and> e \<in> set (edges v)}"

text \<open>
  A graph as the operations build it: keys in order, and every edge leads to a vertex of
  the graph.
\<close>

definition well_formed :: "('v, 'e) Digraph \<Rightarrow> bool" where
  "well_formed g = (ordered g \<and> (\<forall>(k, v)\<in>set g. \<forall>e\<in>set (edges v). toVertex e \<in> set (map fst g)))"

text \<open>\<open>k\<close> can be reached from \<open>s\<close> along edges.\<close>

definition reached :: "('v, 'e) Digraph \<Rightarrow> int \<Rightarrow> int \<Rightarrow> bool" where
  "reached g s k = ((s, k) \<in> (arcs g)\<^sup>*)"

text \<open>
  What the main loop of \<open>findShortestPaths\<close> keeps: \<open>vData\<close> has the keys of the graph,
  distances stay within \<open>0\<close> and \<open>INT_MAX\<close>, a predecessor other than the vertex itself is
  only given to a vertex that can be reached from the start, the queue holds such vertices
  only, and the start keeps distance \<open>0\<close> and itself as predecessor.
\<close>

definition dijkstra_inv ::
  "('v, 'e) Digraph \<Rightarrow> int \<Rightarrow> DijkstraInfo std_map \<Rightarrow> pqueue \<Rightarrow> bool" where
  "dijkstra_inv g s vData pq =
     (ordered vData \<and> set (map fst vData) = set (map fst g)
      \<and> (\<forall>k i. map_of vData k = Some i \<longrightarrow>
             0 \<le> d i \<and> d i \<le> INT_MAX \<and> (p i = k \<or> reached g s k))
      \<and> (\<forall>x\<in>set pq. reached g s (snd x))
      \<and> (\<exists>i. map_of vData s = Some i \<and> d i = 0 \<and> p i = s))"

text \<open>
  What a walk started on the records \<open>vis\<close> for the targets \<open>roots\<close> returns: it marks
  the targets, keeps the marks it found, every vertex it marks has all its successors marked,
  and what it marks can be reached from a target.
\<close>

definition dfs_post :: "('v, 'e) Digraph \<Rightarrow> int set \<Rightarrow> bool std_map \<Rightarrow> bool std_map result \<Rightarrow> bool" where
  "dfs_post g roots vis r =
     (\<exists>vis'. r = Returns vis' \<and> ordered vis' \<and> marked vis \<union> roots \<subseteq> marked vis'
        \<and> (\<forall>u\<in>marked vis' - marked vis. arcs g `` {u} \<subseteq> marked vis')
        \<and> marked vis' \<subseteq> marked vis \<union> (arcs g)\<^sup>* `` roots)"

subsection \<open>The mutating operations as one type, and graphs used below\<close>

datatype ('v, 'e) mutation =
  AddVertex int 'v | AddEdge int int 'e | RemoveVertex int | RemoveEdge int int

fun mutate :: "('v, 'e) Digraph \<Rightarrow> ('v, 'e) mutation \<Rightarrow> ('v, 'e) Digraph effect" where
  "mutate g (AddVertex vertex vi) = addVertex g vertex vi"
| "mutate g (AddEdge from to ei) = addEdge g from to ei"
| "mutate g (RemoveVertex vertex) = removeVertex g vertex"
| "mutate g (RemoveEdge from to) = removeEdge g from to"

text \<open>The total weight of the walk through the listed vertices, where its edges exist.\<close>

fun path_weight :: "('v, 'e) Digraph \<Rightarrow> ('e \<Rightarrow> rat) \<Rightarrow> int list \<Rightarrow> rat option" where
  "path_weight g w [] = Some 0"
| "path_weight g w [x] = Some 0"
| "path_weight g w (x # y # rest) =
     (case edgeInfo g x y of
        Returns i \<Rightarrow> map_option (\<lambda>t. w i + t) (path_weight g w (y # rest))
      | Throws _ \<Rightarrow> None
      | Undefined \<Rightarrow> None)"

text \<open>A vertex without payload, with its outgoing edges given as (target, payload) pairs.\<close>

definition mk_vertex :: "int \<Rightarrow> (int \<times> 'e) list \<Rightarrow> int \<times> (unit, 'e) DigraphVertex" where
  "mk_vertex k outs =
     (k, \<lparr>vinfo = (), edges = map (\<lambda>(t, i). \<lparr>fromVertex = k, toVertex = t, einfo = i\<rparr>) outs\<rparr>)"

text \<open>Vertices 1 and 2 and the edge from 1 to 2.\<close>

definition one_edge :: "(unit, int) Digraph" where
  "one_edge = [mk_vertex 1 [(2, 10)], mk_vertex 2 []]"

text \<open>The edge from 1 to 2 stored twice, with an edge to 3 stored before both.\<close>

definition twice :: "(unit, int) Digraph" where
  "twice = [mk_vertex 1 [(3, 5), (2, 10), (2, 20)], mk_vertex 2 [], mk_vertex 3 []]"

text \<open>Whole weights: the direct edge from 1 to 4 weighs 4, the walk over 2 and 3 weighs 3.\<close>

definition detour :: "(unit, rat) Digraph" where
  "detour = [mk_vertex 1 [(2, 1), (3, 5), (4, 4)], mk_vertex 2 [(3, 1)], mk_vertex 3 [(4, 1)],
             mk_vertex 4 []]"

text \<open>Vertex 3 has an edge to 1, and nothing leads to 3.\<close>

definition stray :: "(unit, rat) Digraph" where
  "stray = [mk_vertex 1 [(2, 1)], mk_vertex 2 [], mk_vertex 3 [(1, 2)]]"

text \<open>The cycle through 1, 2 and 3, and two vertices with the one edge from 1 to 2.\<close>

definition cycle3 :: "(unit, unit) Digraph" where
  "cycle3 = [mk_vertex 1 [(2, ())], mk_vertex 2 [(3, ())], mk_vertex 3 [(1, ())]]"

definition one_way :: "(unit, unit) Digraph" where
  "one_way = [mk_vertex 1 [(2, ())], mk_vertex 2 []]"

text \<open>Fractional weights: the direct edge from 1 to 3 weighs 5/4, the walk over 2 weighs 3/2.\<close>

definition halves :: "(unit, rat) Digraph" where
  "halves = [mk_vertex 1 [(2, 3 / 4), (3, 5 / 4)], mk_vertex 2 [(3, 3 / 4)], mk_vertex 3 []]"

section \<open>The claims\<close>

subsection \<open>Facts about the ordered map and about well-formed graphs\<close>

lemma keys_map_assign: "set (map fst (map_assign k v m)) = insert k (set (map fst m))"
proof (induction m)
  case Nil
  then show ?case by simp
next
  case (Cons a m)
  obtain k' v' where a: "a = (k', v')" by (cases a)
  show ?case using Cons unfolding a map_assign.simps by (simp only: list.map list.set fst_conv split: if_split) auto
qed

lemma ordered_map_assign: "ordered m \<Longrightarrow> ordered (map_assign k v m)"
proof (induction m)
  case Nil
  then show ?case by (simp add: ordered_def)
next
  case (Cons a m)
  obtain k' v' where a: "a = (k', v')" by (cases a)
  have "\<forall>x\<in>set (map fst (map_assign k v m)). x = k \<or> x \<in> set (map fst m)"
    by (simp only: keys_map_assign) simp
  with Cons show ?case unfolding ordered_def a by (auto simp del: set_map)
qed

lemma ordered_map_insert: "ordered m \<Longrightarrow> ordered (map_insert k v m)"
  by (simp add: map_insert_def ordered_map_assign split: option.splits)

lemma ordered_distinct: "ordered m \<Longrightarrow> distinct (map fst m)"
  unfolding ordered_def by (induction m) auto

lemma key_lookup: "k \<in> set (map fst m) \<Longrightarrow> \<exists>v. map_of m k = Some v"
  by (induction m) auto

lemma map_insert_present:
  assumes "k \<in> set (map fst m)"
  shows "map_insert k v m = m"
proof -
  from key_lookup[OF assms] obtain x where "map_of m k = Some x" by blast
  then show ?thesis by (simp add: map_insert_def)
qed

lemma map_of_fold_init:
  "map_of (fold (\<lambda>(k, v) m. map_assign k \<lparr>kFlag = False, d = INT_MAX, p = k\<rparr> m) g acc) k =
     (if k \<in> set (map fst g) then Some \<lparr>kFlag = False, d = INT_MAX, p = k\<rparr> else map_of acc k)"
  by (induction g arbitrary: acc) (auto simp: map_of_map_assign split: prod.splits)

lemma keys_fold_assign:
  "set (map fst (fold (\<lambda>(k, v) m. map_assign k (f k v) m) g acc)) = set (map fst g) \<union> set (map fst acc)"
proof (induction g arbitrary: acc)
  case Nil
  then show ?case by simp
next
  case (Cons a g)
  obtain k v where a: "a = (k, v)" by (cases a)
  show ?case unfolding a by (simp add: Cons.IH keys_map_assign del: set_map)
qed

lemma ordered_fold_assign:
  "ordered acc \<Longrightarrow> ordered (fold (\<lambda>(k, v) m. map_assign k (f k v) m) g acc)"
  by (induction g arbitrary: acc) (auto simp: ordered_map_assign split: prod.splits)

lemma map_of_fold_assign:
  "distinct (map fst m) \<Longrightarrow>
   map_of (fold (\<lambda>(k, v) a. map_assign k (f k v) a) m acc) k =
     (case map_of m k of Some v \<Rightarrow> Some (f k v) | None \<Rightarrow> map_of acc k)"
proof (induction m arbitrary: acc)
  case Nil
  then show ?case by simp
next
  case (Cons a m)
  obtain k' v' where a: "a = (k', v')" by (cases a)
  have nk: "map_of m k' = None" using Cons.prems by (simp add: a map_of_eq_None_iff)
  have d: "distinct (map fst m)" using Cons.prems by simp
  show ?case unfolding a using nk by (simp add: Cons.IH[OF d] map_of_map_assign split: option.splits)
qed

lemma ordered_equal_keys:
  "ordered m \<Longrightarrow> ordered m' \<Longrightarrow> set (map fst m) = set (map fst m') \<Longrightarrow> map fst m = map fst m'"
  unfolding ordered_def by (rule strict_sorted_equal)

lemma arcs_iff:
  "ordered g \<Longrightarrow> (k, t) \<in> arcs g \<longleftrightarrow> (\<exists>v e. map_of g k = Some v \<and> e \<in> set (edges v) \<and> toVertex e = t)"
  unfolding arcs_def using ordered_distinct[of g] by (auto dest: map_of_SomeD)

lemma well_formed_targets:
  "well_formed g \<Longrightarrow> map_of g k = Some v \<Longrightarrow> e \<in> set (edges v) \<Longrightarrow> toVertex e \<in> set (map fst g)"
  unfolding well_formed_def by (auto dest!: map_of_SomeD)

lemma arcs_in_vertices: "well_formed g \<Longrightarrow> (a, b) \<in> arcs g \<Longrightarrow> a \<in> set (map fst g) \<and> b \<in> set (map fst g)"
  unfolding well_formed_def arcs_def by force

lemma reach_in_vertices:
  "(a, b) \<in> (arcs g)\<^sup>* \<Longrightarrow> well_formed g \<Longrightarrow> a \<in> set (map fst g) \<Longrightarrow> b \<in> set (map fst g)"
  by (induction rule: rtrancl_induct) (auto dest: arcs_in_vertices)

lemma arcs_of_vertex:
  "well_formed g \<Longrightarrow> map_of g u = Some v \<Longrightarrow> e \<in> set (edges v) \<Longrightarrow> (u, toVertex e) \<in> arcs g"
  unfolding arcs_def by (auto dest!: map_of_SomeD)

text \<open>The graphs that the operations build from the empty graph are well-formed.\<close>

lemma well_formed_iff:
  "well_formed g \<longleftrightarrow> ordered g \<and>
     (\<forall>k v e. map_of g k = Some v \<longrightarrow> e \<in> set (edges v) \<longrightarrow> toVertex e \<in> set (map fst g))"
proof (cases "ordered g")
  case True
  then have "distinct (map fst g)" by (rule ordered_distinct)
  then have eq: "(k, v) \<in> set g \<longleftrightarrow> map_of g k = Some v" for k v by simp
  have "(\<forall>(k, v)\<in>set g. \<forall>e\<in>set (edges v). toVertex e \<in> set (map fst g))
    \<longleftrightarrow> (\<forall>k v e. (k, v) \<in> set g \<longrightarrow> e \<in> set (edges v) \<longrightarrow> toVertex e \<in> set (map fst g))"
    by blast
  then show ?thesis unfolding well_formed_def eq by simp
next
  case False
  then show ?thesis by (simp add: well_formed_def)
qed

lemma keys_map_insert: "set (map fst (map_insert k v m)) = insert k (set (map fst m))"
proof (cases "map_of m k")
  case None
  then show ?thesis by (simp add: map_insert_def keys_map_assign del: set_map)
next
  case (Some a)
  then have "k \<in> set (map fst m)" by (rule map_of_in_keys)
  then show ?thesis using Some by (auto simp: map_insert_def simp del: set_map)
qed

lemma erase_incoming_Some:
  "erase_incoming es vertex = Some es' \<Longrightarrow> es' = es \<and> (\<forall>e\<in>set es. toVertex e \<noteq> vertex)"
  by (induction es arbitrary: es') (auto split: if_splits)

lemma removeVertex_sweep_Some:
  "removeVertex_sweep m vertex = Some m' \<Longrightarrow>
   m' = m \<and> (\<forall>(k, v)\<in>set m. \<forall>e\<in>set (edges v). toVertex e \<noteq> vertex)"
proof (induction m arbitrary: m')
  case Nil
  then show ?case by simp
next
  case (Cons a m)
  obtain k v where a: "a = (k, v)" by (cases a)
  from Cons.prems obtain es' m'' where s: "erase_incoming (edges v) vertex = Some es'"
    "removeVertex_sweep m vertex = Some m''" "m' = (k, v\<lparr>edges := es'\<rparr>) # m''"
    by (auto simp: a split: option.splits)
  from erase_incoming_Some[OF s(1)] Cons.IH[OF s(2)] s(3) show ?case by (simp add: a)
qed

lemma set_map_erase: "set (map_erase k m) \<subseteq> set m"
  by (induction m) (auto split: if_splits)

lemma keys_map_erase: "ordered m \<Longrightarrow> set (map fst (map_erase k m)) = set (map fst m) - {k}"
proof (induction m)
  case Nil
  then show ?case by simp
next
  case (Cons a m)
  obtain k' v' where a: "a = (k', v')" by (cases a)
  have o: "ordered m" and nk: "k' \<notin> set (map fst m)"
    using Cons.prems by (auto simp: ordered_def a)
  show ?case using Cons.IH[OF o] nk by (auto simp: a)
qed

lemma ordered_map_erase: "ordered m \<Longrightarrow> ordered (map_erase k m)"
proof (induction m)
  case Nil
  then show ?case by simp
next
  case (Cons a m)
  obtain k' v' where a: "a = (k', v')" by (cases a)
  have o: "ordered m" using Cons.prems by (simp add: ordered_def a)
  have "\<forall>x\<in>set (map fst (map_erase k m)). k' < x"
    using Cons.prems set_map_erase[of k m] by (auto simp: ordered_def a)
  then show ?case using Cons.IH[OF o] o by (auto simp: ordered_def a simp del: set_map)
qed

lemma removeEdge_scan_subset: "removeEdge_scan es to = Some es' \<Longrightarrow> set es' \<subseteq> set es"
  by (induction es arbitrary: es') (auto split: if_splits)

lemma well_formed_Digraph: "well_formed Digraph"
  by (simp add: well_formed_def ordered_def Digraph_def)

lemma well_formed_addVertex:
  assumes "well_formed g" "addVertex g vertex vi = Done g'"
  shows "well_formed g'"
proof -
  have g': "g' = map_insert vertex \<lparr>vinfo = vi, edges = []\<rparr> g" using assms(2) by (simp add: addVertex_def)
  have "ordered g'" using assms(1) unfolding g' by (simp add: well_formed_def ordered_map_insert)
  moreover have "toVertex e \<in> set (map fst g')" if "map_of g' k = Some v" "e \<in> set (edges v)" for k v e
  proof -
    have "map_of g k = Some v" using that unfolding g' map_of_map_insert
      by (auto split: option.splits if_splits)
    with assms(1) have "toVertex e \<in> set (map fst g)" using that(2) by (rule well_formed_targets)
    then show ?thesis unfolding g' keys_map_insert by simp
  qed
  ultimately show ?thesis unfolding well_formed_iff by blast
qed

lemma well_formed_map_modify:
  assumes wf: "well_formed g" and v: "map_of g from = Some v"
    and es: "\<forall>e\<in>set es. toVertex e \<in> set (map fst g)"
  shows "well_formed (map_modify from (\<lambda>v. v\<lparr>edges := es\<rparr>) g)"
proof -
  let ?g = "map_modify from (\<lambda>v. v\<lparr>edges := es\<rparr>) g"
  have k: "map fst ?g = map fst g" by (rule keys_map_modify)
  have "ordered ?g" using wf by (simp add: well_formed_def ordered_def k)
  moreover have "toVertex e \<in> set (map fst ?g)" if "map_of ?g k = Some x" "e \<in> set (edges x)" for k x e
  proof (cases "k = from")
    case True
    then have "x = v\<lparr>edges := es\<rparr>" using that(1) v by (simp add: map_of_map_modify)
    then show ?thesis using es that(2) by (simp add: k)
  next
    case False
    then have "map_of g k = Some x" using that(1) v by (simp add: map_of_map_modify)
    with wf have "toVertex e \<in> set (map fst g)" using that(2) by (rule well_formed_targets)
    then show ?thesis by (simp add: k)
  qed
  ultimately show ?thesis unfolding well_formed_iff by blast
qed

lemma well_formed_mutate:
  assumes wf: "well_formed g" and m: "mutate g m = Done g'"
  shows "well_formed g'"
proof (cases m)
  case (AddVertex vertex vi)
  then show ?thesis using wf m by (auto intro: well_formed_addVertex)
next
  case (AddEdge src tgt ei)
  with m obtain v v' where v: "map_of g src = Some v" "map_of g tgt = Some v'"
    and g': "g' = map_modify src
      (\<lambda>v. v\<lparr>edges := edges v @ [\<lparr>fromVertex = src, toVertex = tgt, einfo = ei\<rparr>]\<rparr>) g"
    by (auto simp: addEdge_def split: option.splits)
  let ?es = "edges v @ [\<lparr>fromVertex = src, toVertex = tgt, einfo = ei\<rparr>]"
  have "map_modify src (\<lambda>v. v\<lparr>edges := edges v @ [\<lparr>fromVertex = src, toVertex = tgt, einfo = ei\<rparr>]\<rparr>) g
      = map_modify src (\<lambda>v. v\<lparr>edges := ?es\<rparr>) g"
    using v(1) by (induction g) auto
  moreover have "\<forall>e\<in>set ?es. toVertex e \<in> set (map fst g)"
    using well_formed_targets[OF wf v(1)] map_of_in_keys[OF v(2)] by auto
  ultimately show ?thesis unfolding g' using well_formed_map_modify[OF wf v(1)] by simp
next
  case (RemoveVertex vertex)
  with m obtain v where v: "map_of g vertex = Some v"
    and s: "removeVertex_sweep (map_erase vertex g) vertex = Some g'"
    by (auto simp: removeVertex_def split: option.splits)
  let ?h = "map_erase vertex g"
  from removeVertex_sweep_Some[OF s] have g': "g' = ?h"
    and no: "\<forall>(k, v)\<in>set ?h. \<forall>e\<in>set (edges v). toVertex e \<noteq> vertex" by auto
  have og: "ordered g" using wf by (simp add: well_formed_def)
  have "ordered ?h" using og by (rule ordered_map_erase)
  moreover have "\<forall>(k, v)\<in>set ?h. \<forall>e\<in>set (edges v). toVertex e \<in> set (map fst ?h)"
  proof (intro ballI, clarify)
    fix k x e assume kx: "(k, x) \<in> set ?h" and e: "e \<in> set (edges x)"
    have "(k, x) \<in> set g" using kx set_map_erase by fastforce
    then have "toVertex e \<in> set (map fst g)" using wf e unfolding well_formed_def by fastforce
    moreover have "toVertex e \<noteq> vertex" using no kx e by fastforce
    ultimately show "toVertex e \<in> set (map fst ?h)" unfolding keys_map_erase[OF og] by simp
  qed
  ultimately show ?thesis unfolding g' well_formed_def by simp
next
  case (RemoveEdge src tgt)
  with m obtain v es' where v: "map_of g src = Some v"
    and sc: "removeEdge_scan (edges v) tgt = Some es'"
    and g': "g' = map_modify src (\<lambda>v. v\<lparr>edges := es'\<rparr>) g"
    by (auto simp: removeEdge_def split: option.splits)
  have "\<forall>e\<in>set es'. toVertex e \<in> set (map fst g)"
    using well_formed_targets[OF wf v] removeEdge_scan_subset[OF sc] by auto
  then show ?thesis unfolding g' by (rule well_formed_map_modify[OF wf v])
qed

text \<open>One round of the main loop, where a single entry of the queue has the greatest distance.\<close>

lemma pq_top_only:
  "filter (\<lambda>x. list_all (\<lambda>y. \<not> fst x < fst y) q) q = [x] \<Longrightarrow> pq_top tie q = x"
  by (simp add: pq_top_def Let_def)

lemma dijkstra_loop_pop:
  assumes "filter (\<lambda>x. list_all (\<lambda>y. \<not> fst x < fst y) pq) pq = [(dv, u)]"
  shows "dijkstra_loop tie g w vData pq =
    (let vData1 = map_insert u DijkstraInfo_init vData;
         vD = subscript vData1 u DijkstraInfo_init;
         pq1 = remove1 (dv, u) pq
     in if kFlag vD = False then
          (case map_of g u of
             None \<Rightarrow> Throws out_of_range
           | Some v \<Rightarrow>
               (case relax w u (edges v) (map_assign u (vD\<lparr>kFlag := True\<rparr>) vData1) pq1 of
                  None \<Rightarrow> Undefined
                | Some (vData2, pq2) \<Rightarrow> dijkstra_loop tie g w vData2 pq2))
        else dijkstra_loop tie g w vData1 pq1)"
proof -
  have "pq \<noteq> []" using assms by auto
  moreover have "pq_top tie pq = (dv, u)" using assms by (rule pq_top_only)
  ultimately show ?thesis by (subst dijkstra_loop.simps) (simp add: pq_pop_def Let_def)
qed

lemma floor_numeral_quotient:
  "\<lfloor>numeral a / numeral b :: rat\<rfloor> = numeral a div numeral b"
  using floor_divide_of_int_eq [of "numeral a" "numeral b", where ?'a = rat] by simp

lemmas trace_defs = floor_numeral_quotient detour_def halves_def mk_vertex_def map_insert_def subscript_def Let_def
  double_to_int_def INT_MAX_def INT_MIN_def DijkstraInfo_init_def

subsection \<open>The claims in turn\<close>

lemma one_edge_built:
  "addVertex Digraph 1 () = Done g1 \<and> addVertex g1 2 () = Done g2
     \<and> addEdge g2 1 2 (10::int) = Done g3 \<Longrightarrow> g3 = one_edge"
  by (auto simp: addVertex_def addEdge_def Digraph_def map_insert_def one_edge_def mk_vertex_def)

lemma edgeInfo_scan_first:
  "\<forall>x\<in>set pre. toVertex x \<noteq> to \<Longrightarrow> toVertex e = to \<Longrightarrow>
   edgeInfo_scan (pre @ e # post) to = Returns (einfo e)"
  by (induction pre) auto

lemma removeEdge_scan_first:
  "\<forall>x\<in>set pre. toVertex x \<noteq> to \<Longrightarrow> toVertex e = to \<Longrightarrow>
   removeEdge_scan (pre @ e # post) to = Some (pre @ post)"
  by (induction pre) auto

text \<open>
  C1 (the claim: every reached vertex maps to its predecessor on a path of least total
  weight, the vertex finalised next being the one of least tentative distance). The queue
  hands out the entry of greatest distance. On \<open>detour\<close>, started at 1, vertex 3 is finalised
  at distance 5 and vertex 4 at distance 4 before vertex 2 is looked at, so 4 keeps 1 as its
  predecessor although the walk 1, 2, 3, 4 weighs 3 and the edge from 1 to 4 weighs 4. No two
  entries of the queue ever tie here, so this is the result whatever the heap does with ties;
  the proof follows the loop round by round.
\<close>

theorem findShortestPaths_detour:
  "findShortestPaths tie detour 1 id = Returns [(1, 1), (2, 1), (3, 2), (4, 1)]
   \<and> path_weight detour id [1, 4] = Some 4
   \<and> path_weight detour id [1, 2, 3, 4] = Some 3"
proof -
  let ?loop = "dijkstra_loop tie detour id"
  have "dijkstra_vData tie detour 1 id =
    ?loop [(1, \<lparr>kFlag = False, d = 0, p = 1\<rparr>), (2, \<lparr>kFlag = False, d = INT_MAX, p = 2\<rparr>),
           (3, \<lparr>kFlag = False, d = INT_MAX, p = 3\<rparr>), (4, \<lparr>kFlag = False, d = INT_MAX, p = 4\<rparr>)]
          [(0, 1)]"
    by (simp add: dijkstra_vData_def start_vData_def init_vData_def detour_def mk_vertex_def
        map_insert_def Let_def)
  also have "\<dots> =
    ?loop [(1, \<lparr>kFlag = True, d = 0, p = 1\<rparr>), (2, \<lparr>kFlag = False, d = 1, p = 1\<rparr>),
           (3, \<lparr>kFlag = False, d = 5, p = 1\<rparr>), (4, \<lparr>kFlag = False, d = 4, p = 1\<rparr>)]
          [(1, 2), (5, 3), (4, 4)]"
    by (subst dijkstra_loop_pop [where dv = 0 and u = 1]) (simp_all add: trace_defs)
  also have "\<dots> =
    ?loop [(1, \<lparr>kFlag = True, d = 0, p = 1\<rparr>), (2, \<lparr>kFlag = False, d = 1, p = 1\<rparr>),
           (3, \<lparr>kFlag = True, d = 5, p = 1\<rparr>), (4, \<lparr>kFlag = False, d = 4, p = 1\<rparr>)]
          [(1, 2), (4, 4)]"
    by (subst dijkstra_loop_pop [where dv = 5 and u = 3]) (simp_all add: trace_defs)
  also have "\<dots> =
    ?loop [(1, \<lparr>kFlag = True, d = 0, p = 1\<rparr>), (2, \<lparr>kFlag = False, d = 1, p = 1\<rparr>),
           (3, \<lparr>kFlag = True, d = 5, p = 1\<rparr>), (4, \<lparr>kFlag = True, d = 4, p = 1\<rparr>)]
          [(1, 2)]"
    by (subst dijkstra_loop_pop [where dv = 4 and u = 4]) (simp_all add: trace_defs)
  also have "\<dots> =
    ?loop [(1, \<lparr>kFlag = True, d = 0, p = 1\<rparr>), (2, \<lparr>kFlag = True, d = 1, p = 1\<rparr>),
           (3, \<lparr>kFlag = True, d = 2, p = 2\<rparr>), (4, \<lparr>kFlag = True, d = 4, p = 1\<rparr>)]
          [(2, 3)]"
    by (subst dijkstra_loop_pop [where dv = 1 and u = 2]) (simp_all add: trace_defs)
  also have "\<dots> =
    ?loop [(1, \<lparr>kFlag = True, d = 0, p = 1\<rparr>), (2, \<lparr>kFlag = True, d = 1, p = 1\<rparr>),
           (3, \<lparr>kFlag = True, d = 2, p = 2\<rparr>), (4, \<lparr>kFlag = True, d = 4, p = 1\<rparr>)]
          []"
    by (subst dijkstra_loop_pop [where dv = 2 and u = 3]) (simp_all add: trace_defs)
  also have "\<dots> =
    Returns [(1, \<lparr>kFlag = True, d = 0, p = 1\<rparr>), (2, \<lparr>kFlag = True, d = 1, p = 1\<rparr>),
             (3, \<lparr>kFlag = True, d = 2, p = 2\<rparr>), (4, \<lparr>kFlag = True, d = 4, p = 1\<rparr>)]"
    by (subst dijkstra_loop.simps) simp
  finally have "findShortestPaths tie detour 1 id = Returns [(1, 1), (2, 1), (3, 2), (4, 1)]"
    by (simp add: findShortestPaths_def detour_def mk_vertex_def)
  moreover have "path_weight detour id [1, 4] = Some 4"
    by (simp add: detour_def mk_vertex_def edgeInfo_def)
  moreover have "path_weight detour id [1, 2, 3, 4] = Some 3"
    by (simp add: detour_def mk_vertex_def edgeInfo_def)
  ultimately show ?thesis by (intro conjI)
qed

text \<open>
  C2 (the claim: \<open>addEdge\<close> for a pair that already has an edge fails and leaves the graph
  unchanged, so no two edges share a pair). \<open>addEdge\<close> only looks the two vertices up; on
  \<open>one_edge\<close> a second edge from 1 to 2 is stored behind the first and the call returns.
\<close>

theorem addEdge_duplicate_accepted:
  "addEdge one_edge 1 2 20 = Done [mk_vertex 1 [(2, 10), (2, 20)], mk_vertex 2 []]
   \<and> edges_all [mk_vertex 1 [(2, 10 :: int), (2, 20)], mk_vertex 2 []] = [(1, 2), (1, 2)]"
  by (simp add: one_edge_def addEdge_def mk_vertex_def edges_all_def)

text \<open>
  C3 (the claim: after \<open>removeVertex v\<close> no edge mentions \<open>v\<close> and all else is kept, also when
  a list holds edges to \<open>v\<close>). The loop erases a matching edge and then increments the erased
  iterator: with one edge from 1 to 2, removing vertex 2 has no defined outcome.
\<close>

theorem removeVertex_incoming_edge_undefined:
  "removeVertex one_edge 2 = UndefinedBehaviour"
  by (simp add: one_edge_def removeVertex_def mk_vertex_def)

text \<open>
  C4 (the claim: \<open>addVertex\<close> for a vertex that is present fails, the stored payload staying
  as it is). The call returns normally; the graph, payload included, is the one before.
\<close>

theorem addVertex_existing_returns:
  "addVertex [(1, \<lparr>vinfo = ''a'', edges = []\<rparr>)] 1 ''b''
     = Done [(1, \<lparr>vinfo = ''a'', edges = ([] :: int DigraphEdge list)\<rparr>)]"
  by (simp add: addVertex_def map_insert_def)

text \<open>
  C5 (the claim: a move hands the contents over and leaves the source empty). Both move
  operations copy: afterwards the source \<open>one_edge\<close> still has its two vertices and its edge.
\<close>

theorem move_keeps_source:
  "Digraph_move one_edge = (one_edge, one_edge)
   \<and> move_assign Digraph one_edge = (one_edge, one_edge)
   \<and> vertexCount (snd (Digraph_move one_edge)) = 2
   \<and> edges_all (snd (move_assign Digraph one_edge)) = [(1, 2)]"
  by (simp add: Digraph_move_def move_assign_def one_edge_def vertexCount_def size_to_int_def
      edges_all_def mk_vertex_def)

text \<open>
  C6 (the claim: tentative distances are the exact sums of the weights, fractions kept). The
  distance is stored in an \<open>int\<close>. On \<open>halves\<close>, started at 1, vertex 2 gets distance 0
  for the weight 3/4 and vertex 3 gets 1 for 5/4; then 0 + 3/4 is less than 1, and 3 is given
  2 as predecessor and distance 0, although the walk over 2 weighs 3/2 and the direct edge 5/4.
\<close>

theorem findShortestPaths_halves:
  "dijkstra_vData tie halves 1 id =
     Returns [(1, \<lparr>kFlag = True, d = 0, p = 1\<rparr>), (2, \<lparr>kFlag = True, d = 0, p = 1\<rparr>),
              (3, \<lparr>kFlag = True, d = 0, p = 2\<rparr>)]
   \<and> findShortestPaths tie halves 1 id = Returns [(1, 1), (2, 1), (3, 2)]
   \<and> path_weight halves id [1, 3] = Some (5 / 4)
   \<and> path_weight halves id [1, 2, 3] = Some (3 / 2)"
proof -
  let ?loop = "dijkstra_loop tie halves id"
  have "dijkstra_vData tie halves 1 id =
    ?loop [(1, \<lparr>kFlag = False, d = 0, p = 1\<rparr>), (2, \<lparr>kFlag = False, d = INT_MAX, p = 2\<rparr>),
           (3, \<lparr>kFlag = False, d = INT_MAX, p = 3\<rparr>)]
          [(0, 1)]"
    by (simp add: dijkstra_vData_def start_vData_def init_vData_def halves_def mk_vertex_def
        map_insert_def Let_def)
  also have "\<dots> =
    ?loop [(1, \<lparr>kFlag = True, d = 0, p = 1\<rparr>), (2, \<lparr>kFlag = False, d = 0, p = 1\<rparr>),
           (3, \<lparr>kFlag = False, d = 1, p = 1\<rparr>)]
          [(0, 2), (1, 3)]"
    by (subst dijkstra_loop_pop [where dv = 0 and u = 1]) (simp_all add: trace_defs)
  also have "\<dots> =
    ?loop [(1, \<lparr>kFlag = True, d = 0, p = 1\<rparr>), (2, \<lparr>kFlag = False, d = 0, p = 1\<rparr>),
           (3, \<lparr>kFlag = True, d = 1, p = 1\<rparr>)]
          [(0, 2)]"
    by (subst dijkstra_loop_pop [where dv = 1 and u = 3]) (simp_all add: trace_defs)
  also have "\<dots> =
    ?loop [(1, \<lparr>kFlag = True, d = 0, p = 1\<rparr>), (2, \<lparr>kFlag = True, d = 0, p = 1\<rparr>),
           (3, \<lparr>kFlag = True, d = 0, p = 2\<rparr>)]
          [(0, 3)]"
    by (subst dijkstra_loop_pop [where dv = 0 and u = 2]) (simp_all add: trace_defs)
  also have "\<dots> =
    ?loop [(1, \<lparr>kFlag = True, d = 0, p = 1\<rparr>), (2, \<lparr>kFlag = True, d = 0, p = 1\<rparr>),
           (3, \<lparr>kFlag = True, d = 0, p = 2\<rparr>)]
          []"
    by (subst dijkstra_loop_pop [where dv = 0 and u = 3]) (simp_all add: trace_defs)
  also have "\<dots> =
    Returns [(1, \<lparr>kFlag = True, d = 0, p = 1\<rparr>), (2, \<lparr>kFlag = True, d = 0, p = 1\<rparr>),
             (3, \<lparr>kFlag = True, d = 0, p = 2\<rparr>)]"
    by (subst dijkstra_loop.simps) simp
  finally have v: "dijkstra_vData tie halves 1 id =
    Returns [(1, \<lparr>kFlag = True, d = 0, p = 1\<rparr>), (2, \<lparr>kFlag = True, d = 0, p = 1\<rparr>),
             (3, \<lparr>kFlag = True, d = 0, p = 2\<rparr>)]" .
  then have "findShortestPaths tie halves 1 id = Returns [(1, 1), (2, 1), (3, 2)]"
    by (simp add: findShortestPaths_def halves_def mk_vertex_def)
  moreover have "path_weight halves id [1, 3] = Some (5 / 4)"
    by (simp add: halves_def mk_vertex_def edgeInfo_def)
  moreover have "path_weight halves id [1, 2, 3] = Some (3 / 2)"
    by (simp add: halves_def mk_vertex_def edgeInfo_def)
  ultimately show ?thesis using v by (intro conjI)
qed

lemma inv_assign:
  assumes inv: "dijkstra_inv g s vData pq" and old: "map_of vData t = Some old"
    and rng: "0 \<le> d new" "d new \<le> INT_MAX" and pr: "p new = t \<or> reached g s t"
    and st: "t = s \<Longrightarrow> d new = 0 \<and> p new = s"
    and q: "\<forall>x\<in>set pq'. reached g s (snd x)"
  shows "dijkstra_inv g s (map_assign t new vData) pq'"
proof -
  have tk: "t \<in> set (map fst vData)" using old by (rule map_of_in_keys)
  have "ordered (map_assign t new vData)" using inv by (simp add: dijkstra_inv_def ordered_map_assign)
  moreover have "set (map fst (map_assign t new vData)) = set (map fst g)"
    using inv tk unfolding keys_map_assign dijkstra_inv_def by auto
  moreover have "\<forall>k i. map_of (map_assign t new vData) k = Some i \<longrightarrow>
             0 \<le> d i \<and> d i \<le> INT_MAX \<and> (p i = k \<or> reached g s k)"
    using inv rng pr unfolding dijkstra_inv_def map_of_map_assign by auto
  moreover have "\<exists>i. map_of (map_assign t new vData) s = Some i \<and> d i = 0 \<and> p i = s"
    using inv st unfolding dijkstra_inv_def map_of_map_assign by auto
  ultimately show ?thesis using q unfolding dijkstra_inv_def by blast
qed

lemma double_to_int_floor:
  assumes "0 \<le> x" "x < of_int n" "n \<le> INT_MAX"
  shows "\<exists>m. double_to_int x = Some m \<and> 0 \<le> m \<and> m \<le> INT_MAX"
proof -
  have "0 \<le> \<lfloor>x\<rfloor>" using assms(1) by simp
  moreover have "\<lfloor>x\<rfloor> < n" using assms(2) by (simp add: floor_less_iff)
  ultimately show ?thesis using assms(1,3)
    by (simp add: double_to_int_def INT_MIN_def)
qed

lemma relax_inv:
  assumes u: "reached g s u"
  shows "dijkstra_inv g s vData pq \<Longrightarrow> map_of vData u \<noteq> None \<Longrightarrow>
    \<forall>e\<in>set es. (u, toVertex e) \<in> arcs g \<and> toVertex e \<in> set (map fst g) \<and> 0 \<le> w (einfo e) \<Longrightarrow>
    \<exists>vData' pq'. relax w u es vData pq = Some (vData', pq') \<and> dijkstra_inv g s vData' pq'"
proof (induction es arbitrary: vData pq)
  case Nil
  then show ?case by simp
next
  case (Cons e es)
  let ?t = "toVertex e"
  have inv: "dijkstra_inv g s vData pq" by fact
  have e: "(u, ?t) \<in> arcs g" "?t \<in> set (map fst g)" "0 \<le> w (einfo e)" using Cons.prems(3) by auto
  have rest: "\<forall>e\<in>set es. (u, toVertex e) \<in> arcs g \<and> toVertex e \<in> set (map fst g) \<and> 0 \<le> w (einfo e)"
    using Cons.prems(3) by auto
  have tk: "?t \<in> set (map fst vData)" using inv e(2) by (simp add: dijkstra_inv_def)
  from key_lookup[OF tk] obtain wd where wd: "map_of vData ?t = Some wd" by blast
  obtain vd where vd: "map_of vData u = Some vd" using Cons.prems(2) by auto
  have ins: "map_insert ?t DijkstraInfo_init vData = vData" using tk by (rule map_insert_present)
  have dvd: "0 \<le> d vd" using inv vd unfolding dijkstra_inv_def by blast
  have dwd: "d wd \<le> INT_MAX" using inv wd unfolding dijkstra_inv_def by blast
  let ?nd = "of_int (d vd) + w (einfo e) :: rat"
  show ?case
  proof (cases "of_int (d wd) > ?nd")
    case True
    have nd0: "0 \<le> ?nd" using dvd e(3) by simp
    from double_to_int_floor[OF nd0 True dwd]
    obtain m where m: "double_to_int ?nd = Some m" "0 \<le> m" "m \<le> INT_MAX" by blast
    let ?new = "wd\<lparr>d := m, p := u\<rparr>"
    have rt: "reached g s ?t" using u e(1) unfolding reached_def by (rule rtrancl_into_rtrancl)
    have ns: "?t \<noteq> s"
    proof
      assume "?t = s"
      then have "d wd = 0" using inv wd unfolding dijkstra_inv_def by auto
      with True nd0 show False by simp
    qed
    have inv': "dijkstra_inv g s (map_assign ?t ?new vData) (pq @ [(m, ?t)])"
      using inv wd
    proof (rule inv_assign)
      show "\<forall>x\<in>set (pq @ [(m, ?t)]). reached g s (snd x)"
        using inv rt unfolding dijkstra_inv_def by auto
    qed (use m rt ns in auto)
    have u': "map_of (map_assign ?t ?new vData) u \<noteq> None"
      using vd by (simp add: map_of_map_assign)
    from Cons.IH[OF inv' u' rest]
    obtain vData' pq' where "relax w u es (map_assign ?t ?new vData) (pq @ [(m, ?t)]) = Some (vData', pq')"
       "dijkstra_inv g s vData' pq'" by blast
    then show ?thesis using True m(1) wd vd by (simp add: ins Let_def subscript_def)
  next
    case False
    from Cons.IH[OF inv Cons.prems(2) rest]
    obtain vData' pq' where "relax w u es vData pq = Some (vData', pq')"
       "dijkstra_inv g s vData' pq'" by blast
    then show ?thesis using False wd vd by (simp add: ins Let_def subscript_def)
  qed
qed


lemma dijkstra_loop_inv:
  "well_formed g \<Longrightarrow> (\<forall>(k, v)\<in>set g. \<forall>e\<in>set (edges v). 0 \<le> w (einfo e)) \<Longrightarrow>
   s \<in> set (map fst g) \<Longrightarrow> dijkstra_inv g s vData pq \<Longrightarrow>
   \<exists>r. dijkstra_loop tie g w vData pq = Returns r \<and> dijkstra_inv g s r []"
proof (induction tie g w vData pq rule: dijkstra_loop.induct)
  case (1 tie g w vData pq)
  note wf = 1(3) and nonneg = 1(4) and sin = 1(5) and inv = 1(6)
  show ?case
  proof (cases "pq = []")
    case True
    then show ?thesis using inv by (subst dijkstra_loop.simps) simp
  next
    case False
    let ?u = "snd (pq_top tie pq)"
    let ?pq1 = "pq_pop tie pq"
    have top: "pq_top tie pq \<in> set pq" using False by (rule pq_top_in)
    then have ru: "reached g s ?u" using inv unfolding dijkstra_inv_def by blast
    have uin: "?u \<in> set (map fst g)"
      using ru wf sin unfolding reached_def by (rule reach_in_vertices)
    then have uk: "?u \<in> set (map fst vData)" using inv by (simp add: dijkstra_inv_def)
    from key_lookup[OF uk] obtain vd where vd: "map_of vData ?u = Some vd" by blast
    from key_lookup[OF uin] obtain v where v: "map_of g ?u = Some v" by blast
    have ins: "map_insert ?u DijkstraInfo_init vData = vData" using uk by (rule map_insert_present)
    have sub: "subscript vData ?u DijkstraInfo_init = vd" using vd by (simp add: subscript_def)
    have q1: "\<forall>x\<in>set ?pq1. reached g s (snd x)"
      using inv notin_set_remove1 unfolding dijkstra_inv_def pq_pop_def by metis
    show ?thesis
    proof (cases "kFlag vd")
      case True
      have inv1: "dijkstra_inv g s vData ?pq1" using inv q1 unfolding dijkstra_inv_def by blast
      have "\<exists>r. dijkstra_loop tie g w vData ?pq1 = Returns r \<and> dijkstra_inv g s r []"
        using 1(2)[OF False refl refl refl refl _ wf nonneg sin] True inv1 by (simp add: ins sub)
      then show ?thesis
        using False True by (subst dijkstra_loop.simps) (simp add: Let_def ins sub)
    next
      case nf: False
      let ?vData2 = "map_assign ?u (vd\<lparr>kFlag := True\<rparr>) vData"
      have inv2: "dijkstra_inv g s ?vData2 ?pq1"
        using inv vd
      proof (rule inv_assign)
        show "\<forall>x\<in>set ?pq1. reached g s (snd x)" by (rule q1)
      qed (use inv vd in \<open>auto simp: dijkstra_inv_def\<close>)
      have u2: "map_of ?vData2 ?u \<noteq> None" by (simp add: map_of_map_assign)
      have es: "\<forall>e\<in>set (edges v). (?u, toVertex e) \<in> arcs g \<and> toVertex e \<in> set (map fst g)
          \<and> 0 \<le> w (einfo e)"
      proof (intro ballI conjI)
        fix e assume e: "e \<in> set (edges v)"
        show "(?u, toVertex e) \<in> arcs g" using wf v e by (rule arcs_of_vertex)
        show "toVertex e \<in> set (map fst g)" using wf v e by (rule well_formed_targets)
        have "(?u, v) \<in> set g" using v by (rule map_of_SomeD)
        with nonneg e show "0 \<le> w (einfo e)" by blast
      qed
      from relax_inv[OF ru inv2 u2 es]
      obtain vData3 pq3 where r: "relax w ?u (edges v) ?vData2 ?pq1 = Some (vData3, pq3)"
        "dijkstra_inv g s vData3 pq3" by blast
      have "\<exists>r. dijkstra_loop tie g w vData3 pq3 = Returns r \<and> dijkstra_inv g s r []"
        using 1(1)[OF False refl refl refl refl _ v _ refl wf nonneg sin r(2)] nf r(1)
        by (simp add: ins sub)
      then show ?thesis
        using False nf v r(1)
        by (subst dijkstra_loop.simps) (simp add: Let_def ins sub)
    qed
  qed
qed

lemma start_vData_inv:
  assumes "s \<in> set (map fst g)"
  shows "dijkstra_inv g s (start_vData g s) [(0, s)]"
proof -
  let ?i = "init_vData g"
  let ?m1 = "map_modify s (\<lambda>i. i\<lparr>d := 0\<rparr>) ?i"
  let ?m2 = "map_modify s (\<lambda>i. i\<lparr>p := s\<rparr>) ?m1"
  have mi: "map_of ?i k = (if k \<in> set (map fst g) then Some \<lparr>kFlag = False, d = INT_MAX, p = k\<rparr> else None)" for k
    unfolding init_vData_def by (simp add: map_of_fold_init)
  have ki: "set (map fst ?i) = set (map fst g)"
    unfolding init_vData_def using keys_fold_assign[of "\<lambda>k v. \<lparr>kFlag = False, d = INT_MAX, p = k\<rparr>" g "[]"] by simp
  have oi: "ordered ?i"
    unfolding init_vData_def
    using ordered_fold_assign[of "[]" "\<lambda>k v. \<lparr>kFlag = False, d = INT_MAX, p = k\<rparr>" g] by (simp add: ordered_def)
  have s1: "map_insert s DijkstraInfo_init ?i = ?i" using assms ki by (intro map_insert_present) simp
  have k1: "map fst ?m1 = map fst ?i" by (rule keys_map_modify)
  have s2: "map_insert s DijkstraInfo_init ?m1 = ?m1" using assms ki k1 by (intro map_insert_present) simp
  have st: "start_vData g s = ?m2" by (simp add: start_vData_def Let_def s1 s2)
  have k2: "map fst ?m2 = map fst ?i" using k1 by (simp add: keys_map_modify)
  have m2: "map_of ?m2 k = (if k = s then Some \<lparr>kFlag = False, d = 0, p = s\<rparr>
      else if k \<in> set (map fst g) then Some \<lparr>kFlag = False, d = INT_MAX, p = k\<rparr> else None)" for k
    using assms by (simp add: map_of_map_modify mi)
  have "ordered ?m2" using oi k2 by (simp add: ordered_def)
  moreover have "set (map fst ?m2) = set (map fst g)" using k2 ki by simp
  moreover have "\<forall>k i. map_of ?m2 k = Some i \<longrightarrow> 0 \<le> d i \<and> d i \<le> INT_MAX \<and> (p i = k \<or> reached g s k)"
    unfolding m2 by (auto simp: INT_MAX_def split: if_splits)
  moreover have "\<forall>x\<in>set [(0, s)]. reached g s (snd x)" by (simp add: reached_def)
  moreover have "\<exists>i. map_of ?m2 s = Some i \<and> d i = 0 \<and> p i = s" unfolding m2 by simp
  ultimately show ?thesis unfolding st dijkstra_inv_def by blast
qed

text \<open>
  C7: for a well-formed graph, a start vertex of the graph and weights that are not negative
  on its edges, \<open>findShortestPaths\<close> returns a map whose keys are the vertices of the graph,
  in which the start is mapped to itself and so is every vertex that cannot be reached from
  the start. This holds for every way the queue breaks ties.
\<close>

theorem findShortestPaths_keys_start_unreached:
  assumes wf: "well_formed g" and start: "startVertex \<in> set (vertices g)"
    and nonneg: "\<forall>(k, v)\<in>set g. \<forall>e\<in>set (edges v). 0 \<le> w (einfo e)"
  shows "\<exists>ans. findShortestPaths tie g startVertex w = Returns ans
    \<and> map fst ans = vertices g
    \<and> map_of ans startVertex = Some startVertex
    \<and> (\<forall>k\<in>set (vertices g). (startVertex, k) \<notin> (arcs g)\<^sup>* \<longrightarrow> map_of ans k = Some k)"
proof -
  have sin: "startVertex \<in> set (map fst g)" using start by (simp add: vertices_def)
  from key_lookup[OF sin] obtain v0 where v0: "map_of g startVertex = Some v0" by blast
  from dijkstra_loop_inv[OF wf nonneg sin start_vData_inv[OF sin]]
  obtain r where r: "dijkstra_vData tie g startVertex w = Returns r" "dijkstra_inv g startVertex r []"
    unfolding dijkstra_vData_def by blast
  let ?ans = "fold (\<lambda>(k, i) ans. map_assign k (p i) ans) r []"
  have res: "findShortestPaths tie g startVertex w = Returns ?ans"
    by (simp add: findShortestPaths_def v0 r(1))
  have or: "ordered r" and kr: "set (map fst r) = set (map fst g)"
    using r(2) by (simp_all add: dijkstra_inv_def)
  have oa: "ordered ?ans"
    using ordered_fold_assign[of "[]" "\<lambda>k i. p i" r] by (simp add: ordered_def)
  have ka: "set (map fst ?ans) = set (map fst r)"
    using keys_fold_assign[of "\<lambda>k i. p i" r "[]"] by simp
  have og: "ordered g" using wf by (simp add: well_formed_def)
  have keys: "map fst ?ans = vertices g"
    unfolding vertices_def using oa og
  proof (rule ordered_equal_keys)
    show "set (map fst ?ans) = set (map fst g)" using ka kr by (rule trans)
  qed
  have ma: "map_of ?ans k = map_option p (map_of r k)" for k
    using map_of_fold_assign[OF ordered_distinct[OF or], of "\<lambda>k i. p i" "[]" k]
    by (simp split: option.splits)
  have ps: "map_of ?ans startVertex = Some startVertex"
    using r(2) unfolding ma dijkstra_inv_def by auto
  have un: "\<forall>k\<in>set (vertices g). (startVertex, k) \<notin> (arcs g)\<^sup>* \<longrightarrow> map_of ?ans k = Some k"
  proof (intro ballI impI)
    fix k assume k: "k \<in> set (vertices g)" and nr: "(startVertex, k) \<notin> (arcs g)\<^sup>*"
    have "k \<in> set (map fst r)" using k kr by (simp add: vertices_def)
    from key_lookup[OF this] obtain i where i: "map_of r k = Some i" by blast
    then have "p i = k \<or> reached g startVertex k" using r(2) unfolding dijkstra_inv_def by blast
    with nr have "p i = k" by (simp add: reached_def)
    then show "map_of ?ans k = Some k" by (simp add: ma i)
  qed
  show ?thesis using res keys ps un by blast
qed

theorem findShortestPaths_keys_start_unreached_witness:
  "well_formed stray \<and> 1 \<in> set (vertices stray)
   \<and> (\<exists>ans. findShortestPaths hd stray 1 id = Returns ans
        \<and> map fst ans = [1, 2, 3] \<and> map_of ans 1 = Some 1)
   \<and> findShortestPaths hd stray 1 id = Returns [(1, 1), (2, 1), (3, 3)]"
proof -
  have wf: "well_formed stray"
    by (simp add: well_formed_def ordered_def stray_def mk_vertex_def)
  have st: "1 \<in> set (vertices stray)"
    by (simp add: vertices_def stray_def mk_vertex_def)
  have nn: "\<forall>(k, v)\<in>set stray. \<forall>e\<in>set (edges v). 0 \<le> id (einfo e)"
    by (simp add: stray_def mk_vertex_def)
  have vs: "vertices stray = [1, 2, 3]"
    by (simp add: vertices_def stray_def mk_vertex_def)
  have ev: "findShortestPaths hd stray 1 id = Returns [(1, 1), (2, 1), (3, 3)]"
    by code_simp
  from findShortestPaths_keys_start_unreached [OF wf st nn, of hd]
  obtain ans where "findShortestPaths hd stray 1 id = Returns ans
      \<and> map fst ans = [1, 2, 3] \<and> map_of ans 1 = Some 1
      \<and> (\<forall>k\<in>set [1, 2, 3]. (1, k) \<notin> (arcs stray)\<^sup>* \<longrightarrow> map_of ans k = Some k)"
    unfolding vs ..
  then have "\<exists>ans. findShortestPaths hd stray 1 id = Returns ans
        \<and> map fst ans = [1, 2, 3] \<and> map_of ans 1 = Some 1"
    by (intro exI [of _ ans]) simp
  with wf st ev show ?thesis by (intro conjI)
qed

lemma size_to_int_small: "n < 2 ^ 31 \<Longrightarrow> size_to_int n = int n"
proof -
  assume "n < 2 ^ 31"
  then have "int n < 2 ^ 31" by (metis of_nat_less_iff of_nat_numeral of_nat_power)
  then show ?thesis unfolding size_to_int_def by (simp add: mod_pos_pos_trivial)
qed

lemma fold_count: "fold (\<lambda>(k, b) count. if b then count + 1 else count) vis c
    = c + int (length (filter snd vis))"
  by (induction vis arbitrary: c) (auto split: prod.splits)

lemma marked_Cons: "marked ((k, b) # m) = (if b then insert k (marked m) else marked m - {k})"
  by (auto simp: marked_def)

lemma marked_keys: "marked m \<subseteq> set (map fst m)"
  by (auto simp: marked_def dest: map_of_in_keys)

lemma finite_marked: "finite (marked m)"
  by (rule finite_subset[OF marked_keys]) simp

lemma count_marked: "distinct (map fst vis) \<Longrightarrow> length (filter snd vis) = card (marked vis)"
proof (induction vis)
  case Nil
  then show ?case by (simp add: marked_def)
next
  case (Cons a vis)
  obtain k b where a: "a = (k, b)" by (cases a)
  have "k \<notin> marked vis" using Cons.prems marked_keys[of vis] by (auto simp: a)
  then show ?case using Cons by (simp add: a marked_Cons finite_marked)
qed

lemma countConnectVertices_marked:
  "ordered vis \<Longrightarrow> countConnectVertices vis = int (card (marked vis))"
  by (simp add: countConnectVertices_def fold_count count_marked ordered_distinct)

lemma DFTr_correct:
  "well_formed g \<Longrightarrow> ordered vis \<Longrightarrow> map_of g k = Some v \<Longrightarrow> dfs_post g {k} vis (DFTr g k v vis)"
  "well_formed g \<Longrightarrow> ordered vis \<Longrightarrow> (\<forall>e\<in>set es. toVertex e \<in> set (map fst g)) \<Longrightarrow>
     dfs_post g (toVertex ` set es) vis (DFTr_edges g es vis)"
proof (induction g k v vis and g es vis rule: DFTr_DFTr_edges.induct)
  case (1 g k v vis)
  let ?vis1 = "map_assign k True vis"
  have tg: "\<forall>e\<in>set (edges v). toVertex e \<in> set (map fst g)"
    using 1(2,4) by (auto dest: well_formed_targets)
  have "dfs_post g (toVertex ` set (edges v)) ?vis1 (DFTr_edges g (edges v) ?vis1)"
    using 1 tg by (simp add: ordered_map_assign)
  then obtain vis' where r: "DFTr_edges g (edges v) ?vis1 = Returns vis'" "ordered vis'"
    "marked ?vis1 \<union> toVertex ` set (edges v) \<subseteq> marked vis'"
    "\<forall>u\<in>marked vis' - marked ?vis1. arcs g `` {u} \<subseteq> marked vis'"
    "marked vis' \<subseteq> marked ?vis1 \<union> (arcs g)\<^sup>* `` (toVertex ` set (edges v))"
    unfolding dfs_post_def by blast
  have ord: "ordered g" using 1(2) by (simp add: well_formed_def)
  have succ: "arcs g `` {k} = toVertex ` set (edges v)"
    using 1(4) by (auto simp: arcs_iff[OF ord])
  have a: "marked vis \<union> {k} \<subseteq> marked vis'" using r(3) by (auto simp: marked_map_assign_True)
  have b: "\<forall>u\<in>marked vis' - marked vis. arcs g `` {u} \<subseteq> marked vis'"
  proof
    fix u assume u: "u \<in> marked vis' - marked vis"
    show "arcs g `` {u} \<subseteq> marked vis'"
    proof (cases "u = k")
      case True
      then show ?thesis using r(3) succ by auto
    next
      case False
      then show ?thesis using r(4) u by (auto simp: marked_map_assign_True)
    qed
  qed
  have c: "marked vis' \<subseteq> marked vis \<union> (arcs g)\<^sup>* `` {k}"
  proof
    fix x assume "x \<in> marked vis'"
    with r(5) consider "x \<in> marked vis" | "x = k" | "x \<in> (arcs g)\<^sup>* `` (toVertex ` set (edges v))"
      by (auto simp: marked_map_assign_True)
    then show "x \<in> marked vis \<union> (arcs g)\<^sup>* `` {k}"
    proof cases
      case 3
      then obtain t where "t \<in> arcs g `` {k}" "(t, x) \<in> (arcs g)\<^sup>*" using succ by auto
      then have "(k, x) \<in> (arcs g)\<^sup>*" by (auto intro: converse_rtrancl_into_rtrancl)
      then show ?thesis by auto
    qed auto
  qed
  show ?case unfolding dfs_post_def using r(1,2) a b c by simp
next
  case (2 g vis)
  then show ?case by (simp add: dfs_post_def)
next
  case (3 g e es vis)
  let ?t = "toVertex e"
  let ?vis1 = "map_insert ?t False vis"
  have m1: "marked ?vis1 = marked vis" by (rule marked_map_insert_False)
  have o1: "ordered ?vis1" using 3(5) by (rule ordered_map_insert)
  have tg: "\<forall>e\<in>set es. toVertex e \<in> set (map fst g)" using 3(6) by simp
  show ?case
  proof (cases "subscript ?vis1 ?t False = False")
    case True
    from 3(6) have "?t \<in> set (map fst g)" by simp
    then obtain v where v: "map_of g ?t = Some v"
      by (metis map_of_eq_None_iff not_Some_eq set_map)
    from 3(1)[OF refl True v 3(4) o1 v]
    obtain vis2 where r2: "DFTr g ?t v ?vis1 = Returns vis2" "ordered vis2"
      "marked vis \<union> {?t} \<subseteq> marked vis2"
      "\<forall>u\<in>marked vis2 - marked vis. arcs g `` {u} \<subseteq> marked vis2"
      "marked vis2 \<subseteq> marked vis \<union> (arcs g)\<^sup>* `` {?t}"
      unfolding dfs_post_def m1 by blast
    from 3(2)[OF refl True v r2(1) 3(4) r2(2) tg]
    obtain vis' where r: "DFTr_edges g es vis2 = Returns vis'" "ordered vis'"
      "marked vis2 \<union> toVertex ` set es \<subseteq> marked vis'"
      "\<forall>u\<in>marked vis' - marked vis2. arcs g `` {u} \<subseteq> marked vis'"
      "marked vis' \<subseteq> marked vis2 \<union> (arcs g)\<^sup>* `` (toVertex ` set es)"
      unfolding dfs_post_def by blast
    have res: "DFTr_edges g (e # es) vis = Returns vis'"
      using True v r2(1) r(1) by (simp add: Let_def)
    have a: "marked vis \<union> toVertex ` set (e # es) \<subseteq> marked vis'" using r2(3) r(3) by auto
    have b: "\<forall>u\<in>marked vis' - marked vis. arcs g `` {u} \<subseteq> marked vis'"
      using r2(4) r(3,4) by blast
    have c: "marked vis' \<subseteq> marked vis \<union> (arcs g)\<^sup>* `` (toVertex ` set (e # es))"
      using r2(5) r(5) by auto
    show ?thesis unfolding dfs_post_def using res r(2) a b c by blast
  next
    case False
    then have mk: "?t \<in> marked vis"
      by (auto simp: subscript_def marked_def map_of_map_insert split: option.splits)
    from 3(3)[OF refl False 3(4) o1 tg]
    obtain vis' where r: "DFTr_edges g es ?vis1 = Returns vis'" "ordered vis'"
      "marked vis \<union> toVertex ` set es \<subseteq> marked vis'"
      "\<forall>u\<in>marked vis' - marked vis. arcs g `` {u} \<subseteq> marked vis'"
      "marked vis' \<subseteq> marked vis \<union> (arcs g)\<^sup>* `` (toVertex ` set es)"
      unfolding dfs_post_def m1 by blast
    have res: "DFTr_edges g (e # es) vis = Returns vis'"
      using False r(1) by (simp add: Let_def)
    have a: "marked vis \<union> toVertex ` set (e # es) \<subseteq> marked vis'" using mk r(3) by auto
    have c: "marked vis' \<subseteq> marked vis \<union> (arcs g)\<^sup>* `` (toVertex ` set (e # es))"
      using r(5) by auto
    show ?thesis unfolding dfs_post_def using res r(2) a r(4) c by blast
  qed
qed


lemma map_of_clear_records:
  "map_of (fold (\<lambda>(k, v) m. map_assign k False m) g vis) k =
     (if k \<in> set (map fst g) then Some False else map_of vis k)"
  by (induction g arbitrary: vis) (auto simp: map_of_map_assign split: prod.splits)

lemma ordered_clear_records: "ordered vis \<Longrightarrow> ordered (clear_records g vis)"
  unfolding clear_records_def
  by (induction g arbitrary: vis) (auto simp: ordered_map_assign split: prod.splits)

lemma marked_clear_records: "marked (clear_records g vis) = marked vis - set (map fst g)"
  unfolding marked_def clear_records_def by (auto simp: map_of_clear_records split: if_splits)

lemma DFTr_from_clear:
  assumes wf: "well_formed g" and ord: "ordered vis" and sub: "marked vis \<subseteq> set (map fst g)"
    and kv: "map_of g k = Some v"
  shows "\<exists>vis'. DFTr g k v (clear_records g vis) = Returns vis' \<and> ordered vis'
    \<and> marked vis' = (arcs g)\<^sup>* `` {k}"
proof -
  let ?c = "clear_records g vis"
  have mc: "marked ?c = {}" using sub by (auto simp: marked_clear_records)
  have oc: "ordered ?c" using ord by (rule ordered_clear_records)
  have "dfs_post g {k} ?c (DFTr g k v ?c)" using wf oc kv by (rule DFTr_correct(1))
  then obtain vis' where r0: "DFTr g k v ?c = Returns vis'" "ordered vis'"
    "marked ?c \<union> {k} \<subseteq> marked vis'"
    "\<forall>u\<in>marked vis' - marked ?c. arcs g `` {u} \<subseteq> marked vis'"
    "marked vis' \<subseteq> marked ?c \<union> (arcs g)\<^sup>* `` {k}"
    unfolding dfs_post_def by (elim exE conjE)
  have r: "DFTr g k v ?c = Returns vis'" "ordered vis'" "k \<in> marked vis'"
    "\<forall>u\<in>marked vis'. arcs g `` {u} \<subseteq> marked vis'" "marked vis' \<subseteq> (arcs g)\<^sup>* `` {k}"
    using r0 unfolding mc by simp_all
  have "x \<in> marked vis'" if "(k, x) \<in> (arcs g)\<^sup>*" for x
    using that by (induction rule: rtrancl_induct) (use r(3,4) in auto)
  with r(5) have "marked vis' = (arcs g)\<^sup>* `` {k}" by auto
  with r(1,2) show ?thesis by simp
qed

lemma isStronglyConnected_loop_correct:
  assumes wf: "well_formed g" and small: "length g < 2 ^ 31"
  shows "set rest \<subseteq> set g \<Longrightarrow> ordered vis \<Longrightarrow> marked vis \<subseteq> set (map fst g) \<Longrightarrow>
    isStronglyConnected_loop g rest vis
      = Returns (\<forall>k\<in>set (map fst rest). (arcs g)\<^sup>* `` {k} = set (map fst g))"
proof (induction rest arbitrary: vis)
  case Nil
  then show ?case by simp
next
  case (Cons a rest)
  obtain k v where a: "a = (k, v)" by (cases a)
  have og: "ordered g" using wf by (simp add: well_formed_def)
  have kv: "map_of g k = Some v"
    using Cons.prems(1) ordered_distinct[OF og] by (simp add: a)
  have kin: "k \<in> set (map fst g)" using kv by (rule map_of_in_keys)
  from DFTr_from_clear[OF wf Cons.prems(2,3) kv]
  obtain vis' where r: "DFTr g k v (clear_records g vis) = Returns vis'" "ordered vis'"
    "marked vis' = (arcs g)\<^sup>* `` {k}" by blast
  have sub: "marked vis' \<subseteq> set (map fst g)"
    unfolding r(3) using reach_in_vertices[OF _ wf kin] by auto
  have c1: "countConnectVertices vis' = int (card (marked vis'))"
    using r(2) by (rule countConnectVertices_marked)
  have "card (set (map fst g)) = length g"
    using distinct_card[OF ordered_distinct[OF og]] by simp
  moreover have "size_to_int (length g) = int (length g)"
    using small by (rule size_to_int_small)
  ultimately have c2: "vertexCount g = int (card (set (map fst g)))"
    by (simp add: vertexCount_def)
  have ceq: "card (marked vis') = card (set (map fst g)) \<Longrightarrow> marked vis' = set (map fst g)"
    by (rule card_subset_eq[OF _ sub]) simp_all
  have cnt: "countConnectVertices vis' = vertexCount g \<longleftrightarrow> marked vis' = set (map fst g)"
    unfolding c1 c2 of_nat_eq_iff
  proof
    assume "card (marked vis') = card (set (map fst g))"
    then show "marked vis' = set (map fst g)" by (rule ceq)
  next
    assume "marked vis' = set (map fst g)"
    then show "card (marked vis') = card (set (map fst g))" by (rule arg_cong)
  qed
  show ?case
  proof (cases "marked vis' = set (map fst g)")
    case True
    have "isStronglyConnected_loop g rest vis'
      = Returns (\<forall>k\<in>set (map fst rest). (arcs g)\<^sup>* `` {k} = set (map fst g))"
      using Cons.prems(1) r(2) sub by (intro Cons.IH) auto
    then show ?thesis using True cnt r(1,3) by (simp add: a)
  next
    case False
    then show ?thesis using cnt r(1,3) by (simp add: a)
  qed
qed

text \<open>
  C8: for a well-formed graph with fewer than \<open>2^31\<close> vertices, \<open>isStronglyConnected\<close>
  returns, and it returns \<open>true\<close> exactly if every vertex can be reached from every vertex.
\<close>

theorem isStronglyConnected_correct:
  assumes "well_formed g" and "length g < 2 ^ 31"
  shows "isStronglyConnected g
    = Returns (\<forall>u\<in>set (vertices g). \<forall>v\<in>set (vertices g). (u, v) \<in> (arcs g)\<^sup>*)"
proof -
  have "isStronglyConnected g = Returns (\<forall>k\<in>set (map fst g). (arcs g)\<^sup>* `` {k} = set (map fst g))"
    unfolding isStronglyConnected_def
    by (rule isStronglyConnected_loop_correct[OF assms]) (auto simp: ordered_def marked_def)
  moreover have "(\<forall>k\<in>set (map fst g). (arcs g)\<^sup>* `` {k} = set (map fst g))
    \<longleftrightarrow> (\<forall>u\<in>set (vertices g). \<forall>v\<in>set (vertices g). (u, v) \<in> (arcs g)\<^sup>*)"
    unfolding vertices_def using reach_in_vertices[OF _ assms(1)] by blast
  ultimately show ?thesis by simp
qed

theorem isStronglyConnected_correct_witness:
  "well_formed cycle3 \<and> isStronglyConnected cycle3 = Returns True
   \<and> (3, 2) \<in> (arcs cycle3)\<^sup>*
   \<and> well_formed one_way \<and> isStronglyConnected one_way = Returns False
   \<and> isStronglyConnected (Digraph :: (unit, unit) Digraph) = Returns True
   \<and> isStronglyConnected [mk_vertex 7 ([] :: (int \<times> unit) list)] = Returns True"
proof -
  have wf: "well_formed cycle3"
    by (simp add: well_formed_def ordered_def cycle3_def mk_vertex_def)
  have len: "length cycle3 < 2 ^ 31" by (simp add: cycle3_def)
  have ev: "isStronglyConnected cycle3 = Returns True" by code_simp
  have "\<forall>u\<in>set (vertices cycle3). \<forall>v\<in>set (vertices cycle3). (u, v) \<in> (arcs cycle3)\<^sup>*"
    using isStronglyConnected_correct [OF wf len] ev by simp
  moreover have "3 \<in> set (vertices cycle3)" "2 \<in> set (vertices cycle3)"
    by (simp_all add: vertices_def cycle3_def mk_vertex_def)
  ultimately have r: "(3, 2) \<in> (arcs cycle3)\<^sup>*" by blast
  have wf1: "well_formed one_way"
    by (simp add: well_formed_def ordered_def one_way_def mk_vertex_def)
  have ev1: "isStronglyConnected one_way = Returns False" by code_simp
  have ev2: "isStronglyConnected (Digraph :: (unit, unit) Digraph) = Returns True" by code_simp
  have ev3: "isStronglyConnected [mk_vertex 7 ([] :: (int \<times> unit) list)] = Returns True"
    by code_simp
  show ?thesis using wf ev r wf1 ev1 ev2 ev3 by blast
qed

text \<open>
  C9: a mutating call that throws leaves the graph as it was before the call. Every throw of
  \<open>addEdge\<close>, \<open>removeVertex\<close> and \<open>removeEdge\<close> comes before the first write, and
  \<open>addVertex\<close> does not throw.
\<close>

theorem mutation_failure_keeps_graph:
  "mutate g m = Raised err g' \<Longrightarrow> g' = g"
  by (cases m)
    (auto simp: addVertex_def addEdge_def removeVertex_def removeEdge_def split: option.splits)

theorem mutation_failure_keeps_graph_witness:
  "mutate one_edge (RemoveEdge 2 1)
     = Raised (DigraphException ''When removeEdge, toVertex not found!'') one_edge
   \<and> mutate one_edge (AddEdge 1 3 5)
     = Raised (DigraphException ''When add, can't find endVertex!'') one_edge
   \<and> mutate one_edge (RemoveVertex 3)
     = Raised (DigraphException ''When removeVertex, vertex not found!'') one_edge"
  using mutation_failure_keeps_graph [of one_edge "RemoveEdge 2 1"]
    mutation_failure_keeps_graph [of one_edge "AddEdge 1 3 5"]
    mutation_failure_keeps_graph [of one_edge "RemoveVertex 3"]
  by (simp add: one_edge_def removeEdge_def addEdge_def removeVertex_def mk_vertex_def)

text \<open>
  C10: where the outgoing list of \<open>from\<close> holds several edges to \<open>to\<close>, with \<open>e\<close> the first
  of them, \<open>edgeInfo\<close> returns the payload of \<open>e\<close> and \<open>removeEdge\<close> takes out \<open>e\<close> alone,
  every other vertex and every other edge staying in place. \<open>addEdge\<close> stores a further
  edge behind all that are there, so the first in the list is the one added earliest.
\<close>

theorem duplicate_edges_first_stored:
  assumes "map_of g from = Some v" and "map_of g to = Some v'"
    and "edges v = pre @ e # post"
    and "\<forall>x\<in>set pre. toVertex x \<noteq> to" and "toVertex e = to"
  shows "edgeInfo g from to = Returns (einfo e)
    \<and> (\<exists>g'. removeEdge g from to = Done g' \<and> map fst g' = map fst g
          \<and> map_of g' = (map_of g)(from \<mapsto> v\<lparr>edges := pre @ post\<rparr>))
    \<and> (\<exists>g'. addEdge g from to ei = Done g' \<and> map fst g' = map fst g
          \<and> map_of g' = (map_of g)(from \<mapsto>
                v\<lparr>edges := pre @ e # post @ [\<lparr>fromVertex = from, toVertex = to, einfo = ei\<rparr>]\<rparr>))"
proof -
  have "edgeInfo g from to = Returns (einfo e)"
    using assms by (simp add: edgeInfo_def edgeInfo_scan_first)
  moreover have "removeEdge_scan (edges v) to = Some (pre @ post)"
    using assms by (simp add: removeEdge_scan_first)
  then have "removeEdge g from to = Done (map_modify from (\<lambda>v. v\<lparr>edges := pre @ post\<rparr>) g)"
    using assms(1) by (simp add: removeEdge_def)
  moreover have "addEdge g from to ei = Done (map_modify from
      (\<lambda>v. v\<lparr>edges := edges v @ [\<lparr>fromVertex = from, toVertex = to, einfo = ei\<rparr>]\<rparr>) g)"
    using assms(1,2) by (simp add: addEdge_def)
  ultimately show ?thesis
    using assms(1,3) by (simp add: keys_map_modify map_of_map_modify)
qed

theorem duplicate_edges_first_stored_witness:
  "edgeInfo twice 1 2 = Returns 10
   \<and> removeEdge twice 1 2 = Done [mk_vertex 1 [(3, 5), (2, 20)], mk_vertex 2 [], mk_vertex 3 []]
   \<and> edgeInfo [mk_vertex 1 [(3, 5), (2, 20 :: int)], mk_vertex 2 [], mk_vertex 3 []] 1 2
       = Returns 20"
  using duplicate_edges_first_stored [of twice 1 "snd (mk_vertex 1 [(3, 5), (2, 10), (2, 20)])"
      2 "snd (mk_vertex 2 [])" "[\<lparr>fromVertex = 1, toVertex = 3, einfo = 5\<rparr>]"
      "\<lparr>fromVertex = 1, toVertex = 2, einfo = 10\<rparr>"
      "[\<lparr>fromVertex = 1, toVertex = 2, einfo = 20\<rparr>]" 0]
  by (simp add: twice_def mk_vertex_def edgeInfo_def removeEdge_def)

end
